theory Spec2Isabelle
  imports Main "HOL-Library.Char_ord" "HOL-Library.List_Lexorder"
begin

unbundle bit_operations_syntax

section \<open>Strings and bytes\<close>

text \<open>
  A Go \<open>string\<close> is a sequence of bytes, and so is a HOL \<open>string\<close> (a list of 8-bit
  \<open>char\<close>s).  \<open>s[i]\<close> is \<open>s ! i\<close>, \<open>len(s)\<close> is \<open>length s\<close>.  Bytes are compared
  through \<open>HOL-Library.Char_ord\<close> (the order of the byte values) and read as numbers
  with \<open>of_char\<close>.  The characters that cannot be written inside a HOL string literal
  are given by their codes.
\<close>

abbreviation dquote :: char where "dquote \<equiv> CHR 0x22"
abbreviation bslash :: char where "bslash \<equiv> CHR 0x5C"
abbreviation newline :: char where "newline \<equiv> CHR 0x0A"
abbreviation creturn :: char where "creturn \<equiv> CHR 0x0D"
abbreviation tabchar :: char where "tabchar \<equiv> CHR 0x09"

text \<open>Go's \<open>s[lo:hi]\<close>; the sanitiser only calls it with \<open>lo < hi \<le> len(s)\<close>.\<close>

definition slice :: "string \<Rightarrow> nat \<Rightarrow> nat \<Rightarrow> string" where
  "slice s lo hi = take (hi - lo) (drop lo s)"

section \<open>The standard library's UTF-8 decoder\<close>

text \<open>
  \<open>unicode/utf8.DecodeRuneInString\<close> belongs to Go's standard library, not to this
  repository; \<open>sanitiseString\<close> calls it, so it is written out here after the library's
  implementation: the table \<open>first\<close> classifies the leading byte (\<open>as\<close>: ASCII, \<open>xx\<close>:
  invalid, otherwise the low three bits are the length of the encoding and the high
  nibble selects the range accepted for the second byte).  Runes are \<open>int32\<close> in Go;
  every value computed below is less than \<open>2 ^ 21\<close>, so \<open>nat\<close> is exact.
\<close>

definition RuneError :: nat where "RuneError = 0xFFFD"
definition RuneSelf :: char where "RuneSelf = CHR 0x80"

definition locb :: nat where "locb = 0x80"
definition hicb :: nat where "hicb = 0xBF"
definition maskx :: nat where "maskx = 0x3F"
definition mask2 :: nat where "mask2 = 0x1F"
definition mask3 :: nat where "mask3 = 0x0F"
definition mask4 :: nat where "mask4 = 0x07"
definition utf8_xx :: nat where "utf8_xx = 0xF1"
definition utf8_as :: nat where "utf8_as = 0xF0"

definition first :: "nat \<Rightarrow> nat" where
  "first b =
    (if b < 0x80 then utf8_as
     else if b < 0xC2 then utf8_xx
     else if b < 0xE0 then 0x02
     else if b = 0xE0 then 0x13
     else if b < 0xED then 0x03
     else if b = 0xED then 0x23
     else if b < 0xF0 then 0x03
     else if b = 0xF0 then 0x34
     else if b < 0xF4 then 0x04
     else if b = 0xF4 then 0x44
     else utf8_xx)"

definition acceptRanges :: "nat \<Rightarrow> nat \<times> nat" where
  "acceptRanges k =
    (if k = 0 then (locb, hicb)
     else if k = 1 then (0xA0, hicb)
     else if k = 2 then (locb, 0x9F)
     else if k = 3 then (0x90, hicb)
     else if k = 4 then (locb, 0x8F)
     else (0, 0))"

definition DecodeRuneInString :: "string \<Rightarrow> nat \<times> nat" where
  "DecodeRuneInString s =
    (let n = length s in
     if n < 1 then (RuneError, 0)
     else
       let s0 = of_char (s ! 0); x = first s0 in
       if x \<ge> utf8_as then ((if x = utf8_xx then RuneError else s0), 1)
       else
         let sz = x AND 7; accept = acceptRanges (drop_bit 4 x) in
         if n < sz then (RuneError, 1)
         else
           let s1 = of_char (s ! 1) in
           if s1 < fst accept \<or> snd accept < s1 then (RuneError, 1)
           else if sz \<le> 2 then (push_bit 6 (s0 AND mask2) OR (s1 AND maskx), 2)
           else
             let s2 = of_char (s ! 2) in
             if s2 < locb \<or> hicb < s2 then (RuneError, 1)
             else if sz \<le> 3 then
               (push_bit 12 (s0 AND mask3) OR push_bit 6 (s1 AND maskx) OR (s2 AND maskx), 3)
             else
               let s3 = of_char (s ! 3) in
               if s3 < locb \<or> hicb < s3 then (RuneError, 1)
               else
                 (push_bit 18 (s0 AND mask4) OR push_bit 12 (s1 AND maskx)
                    OR push_bit 6 (s2 AND maskx) OR (s3 AND maskx), 4))"

lemma first_cases:
  "first b = utf8_as \<or> first b = utf8_xx \<or> first b = 0x02 \<or> first b = 0x13 \<or> first b = 0x03
     \<or> first b = 0x23 \<or> first b = 0x34 \<or> first b = 0x04 \<or> first b = 0x44"
  by (simp add: first_def)

lemma DecodeRuneInString_width:
  assumes "s \<noteq> []"
  shows "1 \<le> snd (DecodeRuneInString s) \<and> snd (DecodeRuneInString s) \<le> length s"
proof -
  from assms have n: "1 \<le> length s" by (cases s) simp_all
  have "first (of_char (s ! 0)) = v \<Longrightarrow>
        v \<in> {utf8_as, utf8_xx, 0x02, 0x13, 0x03, 0x23, 0x34, 0x04, 0x44} \<Longrightarrow> ?thesis" for v
    using n assms by (auto simp add: DecodeRuneInString_def Let_def utf8_as_def utf8_xx_def)
  with first_cases [of "of_char (s ! 0)"] show ?thesis
    by blast
qed

lemma DecodeRuneInString_pos: "i < length s \<Longrightarrow> 0 < snd (DecodeRuneInString (drop i s))"
  using DecodeRuneInString_width [of "drop i s"] by simp

section \<open>The string sanitiser\<close>

definition hex :: string where "hex = ''0123456789abcdef''"

text \<open>
  The loop of \<open>sanitiseString\<close> with its three variables: \<open>start\<close> (the beginning of the
  run not yet copied), \<open>i\<close> (the read position) and the buffer.  It returns \<open>start\<close> and the
  buffer at the exit of the loop.
\<close>

function sanitise_loop :: "string \<Rightarrow> nat \<Rightarrow> nat \<Rightarrow> string \<Rightarrow> nat \<times> string" where
  "sanitise_loop s start i buf =
    (if i < length s then
       let b = s ! i in
       if b < RuneSelf then
         if CHR 0x20 \<le> b \<and> b \<noteq> bslash \<and> b \<noteq> dquote \<and> b \<noteq> CHR ''<'' \<and> b \<noteq> CHR ''>''
              \<and> b \<noteq> CHR ''&''
         then sanitise_loop s start (i + 1) buf
         else
           let buf = (if start < i then buf @ slice s start i else buf);
               buf =
                 (if b = bslash \<or> b = dquote then buf @ [bslash] @ [b]
                  else if b = newline then buf @ [bslash] @ [CHR ''n'']
                  else if b = creturn then buf @ [bslash] @ [CHR ''r'']
                  else if b = tabchar then buf @ [bslash] @ [CHR ''t'']
                  else buf @ [bslash] @ ''u00'' @ [hex ! drop_bit 4 (of_char b)]
                         @ [hex ! (of_char b AND 0xF)])
           in sanitise_loop s (i + 1) (i + 1) buf
       else
         let d = DecodeRuneInString (drop i s); c = fst d; sz = snd d in
         if c = RuneError \<and> sz = 1 then
           let buf = (if start < i then buf @ slice s start i else buf);
               buf = buf @ [bslash] @ ''ufffd''
           in sanitise_loop s (i + sz) (i + sz) buf
         else if c = 0x2028 \<or> c = 0x2029 then
           let buf = (if start < i then buf @ slice s start i else buf);
               buf = buf @ [bslash] @ ''u202'' @ [hex ! (c AND 0xF)]
           in sanitise_loop s (i + sz) (i + sz) buf
         else sanitise_loop s start (i + sz) buf
     else (start, buf))"
  by pat_completeness auto
termination
  by (relation "measure (\<lambda>(s, start, i, buf). length s - i)")
     (auto simp: DecodeRuneInString_pos diff_less_mono2)

definition sanitiseString :: "string \<Rightarrow> string" where
  "sanitiseString s =
    (let buf = [dquote];
         (start, buf) = sanitise_loop s 0 0 buf;
         buf = (if start < length s then buf @ drop start s else buf)
     in buf @ [dquote])"

section \<open>The tree\<close>

text \<open>
  Modelled from the spec: the declaration of \<open>Node\<close> and its method \<open>HasChildren\<close> are in
  a file that is not among the sources.  A node has its text \<open>Data\<close> and \<open>Children\<close>, a
  mapping from a label to the sequence of the child nodes with that label; a container
  is a node with at least one entry in \<open>Children\<close>.

  The Go map is an association list with distinct keys.  The order of the list stands for
  the order in which \<open>range\<close> happens to visit the map, which Go leaves unspecified.
  \<open>m[k]\<close> is \<open>lookup m k\<close>: the zero value (the nil slice, \<open>[]\<close>) for a missing key.
  Children are nodes, not nil pointers, and the tree is finite.
\<close>

datatype Node = Node (Data: string) (Children: "(string \<times> Node list) list")

definition HasChildren :: "Node \<Rightarrow> bool" where
  "HasChildren n = (length (Children n) > 0)"

definition lookup :: "(string \<times> Node list) list \<Rightarrow> string \<Rightarrow> Node list" where
  "lookup m k = (case map_of m k of None \<Rightarrow> [] | Some v \<Rightarrow> v)"

section \<open>The encoder\<close>

text \<open>
  A Go \<open>error\<close> value; \<open>nil\<close> is \<open>None\<close> in \<open>error option\<close>.  The output stream is an
  \<open>io.Writer\<close>: any state \<open>'w\<close> with a method \<open>Write\<close> that takes the bytes and returns
  the number of bytes written and an error, changing the state.
\<close>

datatype error = WriteError string

type_synonym 'w Writer = "'w \<Rightarrow> string \<Rightarrow> (nat \<times> error option) \<times> 'w"

record 'w Encoder =
  w :: 'w
  err :: "error option"
  contentPrefix :: string
  attributePrefix :: string
  indent :: bool
  indentText :: string

text \<open>
  Modelled from the spec: the package constants \<open>contentPrefix\<close> and \<open>attrPrefix\<close> that
  \<open>NewEncoder\<close> reads are declared outside the sources; the spec gives the empty prefix
  for content and \<open>-\<close> for attributes.
\<close>

definition default_contentPrefix :: string where "default_contentPrefix = []"
definition default_attrPrefix :: string where "default_attrPrefix = ''-''"

definition NewEncoder :: "'w \<Rightarrow> 'w Encoder" where
  "NewEncoder out =
     \<lparr>w = out, err = None, contentPrefix = default_contentPrefix,
      attributePrefix = default_attrPrefix, indent = False, indentText = []\<rparr>"

definition SetAttributePrefix :: "'w Encoder \<Rightarrow> string \<Rightarrow> 'w Encoder" where
  "SetAttributePrefix enc prefix = enc\<lparr>attributePrefix := prefix\<rparr>"

definition SetContentPrefix :: "'w Encoder \<Rightarrow> string \<Rightarrow> 'w Encoder" where
  "SetContentPrefix enc prefix = enc\<lparr>contentPrefix := prefix\<rparr>"

definition SetIndent :: "'w Encoder \<Rightarrow> string \<Rightarrow> 'w Encoder" where
  "SetIndent enc s = enc\<lparr>indent := True, indentText := s\<rparr>"

text \<open>
  The method \<open>write\<close> (\<open>enc_write\<close> here, \<open>write\<close> being a keyword of Isabelle) passes
  each string to the stream and drops what \<open>Write\<close> returns.
\<close>

fun enc_write :: "'w Writer \<Rightarrow> 'w Encoder \<Rightarrow> string list \<Rightarrow> 'w Encoder" where
  "enc_write Wr enc [] = enc"
| "enc_write Wr enc (ss # s) = enc_write Wr (enc\<lparr>w := snd (Wr (w enc) ss)\<rparr>) s"

text \<open>The closure \<open>indentN\<close> of \<open>format\<close>, and its counting loop.\<close>

function indentN_loop :: "'w Writer \<Rightarrow> 'w Encoder \<Rightarrow> nat \<Rightarrow> nat \<Rightarrow> 'w Encoder" where
  "indentN_loop Wr enc ii n =
     (if ii < n then indentN_loop Wr (enc_write Wr enc [indentText enc]) (ii + 1) n else enc)"
  by pat_completeness auto
termination
  by (relation "measure (\<lambda>(Wr, enc, ii, n). n - ii)") auto

definition indentN :: "'w Writer \<Rightarrow> 'w Encoder \<Rightarrow> nat \<Rightarrow> 'w Encoder" where
  "indentN Wr enc n = (if indent enc then indentN_loop Wr enc 0 n else enc)"

lemma lookup_size:
  "chs = lookup m k \<Longrightarrow> chs \<noteq> [] \<Longrightarrow>
     size_list size chs < Suc (size_list (size_prod (\<lambda>x. 0) (size_list size)) m)"
  by (induction m) (auto simp: lookup_def split: if_splits)

lemma lookup_Children_size:
  "chs = lookup (Children n) k \<Longrightarrow> chs \<noteq> [] \<Longrightarrow> size_list size chs < size n"
  using lookup_size [of chs "Children n" k] by (cases n) simp

lemma lookup_array_size:
  "Suc 0 < length (lookup (Children n) k) \<Longrightarrow> size_list size (lookup (Children n) k) < size n"
  by (rule lookup_Children_size [OF refl]) auto

lemma lookup_head_size:
  assumes "ch # rest = lookup (Children n) k"
  shows "size ch < size n"
proof -
  have "size_list size (ch # rest) < size n"
    by (rule lookup_Children_size [OF assms]) simp
  then show ?thesis by simp
qed

text \<open>
  \<open>format\<close>, with its two loops: \<open>format_labels\<close> is the loop over the (sorted) labels
  \<open>sl\<close>, carrying the separator \<open>com\<close>; \<open>format_array\<close> is the loop over the children of
  one label, carrying \<open>com1\<close>.  \<open>None\<close> is the run-time panic of \<open>children[0]\<close> on an empty
  sequence; otherwise \<open>format\<close> returns its error value, which is always \<open>nil\<close>, and the
  encoder.
\<close>

function format :: "'w Writer \<Rightarrow> 'w Encoder \<Rightarrow> Node \<Rightarrow> nat \<Rightarrow> (error option \<times> 'w Encoder) option"
  and format_labels ::
    "'w Writer \<Rightarrow> 'w Encoder \<Rightarrow> Node \<Rightarrow> nat \<Rightarrow> string list \<Rightarrow> string \<Rightarrow> 'w Encoder option"
  and format_array ::
    "'w Writer \<Rightarrow> 'w Encoder \<Rightarrow> Node list \<Rightarrow> nat \<Rightarrow> string \<Rightarrow> 'w Encoder option"
where
  "format Wr enc curNode lvl =
    (if HasChildren curNode then
       let enc = enc_write Wr enc [''{''];
           enc = (if indent enc then enc_write Wr enc [[newline]] else enc);
           enc =
             (if length (Data curNode) > 0 then
                let enc = indentN Wr enc (lvl + 1);
                    enc = enc_write Wr enc
                      [[dquote], contentPrefix enc, ''content'', [dquote] @ '': '',
                       sanitiseString (Data curNode), '', ''] in
                if indent enc then enc_write Wr enc [[newline]] else enc
              else enc);
           sl = map fst (Children curNode);
           sl = (if length sl > 1 then sort sl else sl)
       in
         case format_labels Wr enc curNode lvl sl [] of
           None \<Rightarrow> None
         | Some enc \<Rightarrow>
             let enc = enc_write Wr enc [[newline]];
                 enc = indentN Wr enc lvl;
                 enc = enc_write Wr enc [''}'']
             in Some (None, enc)
     else Some (None, enc_write Wr enc [sanitiseString (Data curNode)]))"
| "format_labels Wr enc curNode lvl [] com = Some enc"
| "format_labels Wr enc curNode lvl (label # rest) com =
    (let children = lookup (Children curNode) label;
         enc = enc_write Wr enc [com];
         enc = indentN Wr enc (lvl + 1);
         enc = enc_write Wr enc [[dquote], label, [dquote] @ '': ''];
         r =
           (if length children > 1 then
              case format_array Wr (enc_write Wr enc [''['']) children lvl [] of
                None \<Rightarrow> None
              | Some enc \<Rightarrow> Some (enc_write Wr enc ['']''])
            else
              case children of
                [] \<Rightarrow> None
              | ch # _ \<Rightarrow> map_option snd (format Wr enc ch (lvl + 1)))
     in
       case r of
         None \<Rightarrow> None
       | Some enc \<Rightarrow>
           format_labels Wr enc curNode lvl rest
             (if indent enc then '','' @ [newline] else '', ''))"
| "format_array Wr enc [] lvl com1 = Some enc"
| "format_array Wr enc (ch # rest) lvl com1 =
    (case format Wr (enc_write Wr enc [com1]) ch (lvl + 2) of
       None \<Rightarrow> None
     | Some r \<Rightarrow> format_array Wr (snd r) rest lvl '', '')"
  by pat_completeness auto

termination format
  by (relation "inv_image (less_than <*lex*> less_than <*lex*> less_than) (\<lambda>x. case x of
       Inl (Wr, enc, n, lvl) \<Rightarrow> (size n, 1::nat, 0::nat)
     | Inr (Inl (Wr, enc, n, lvl, sl, com)) \<Rightarrow> (size n, 0, length sl)
     | Inr (Inr (Wr, enc, chs, lvl, com1)) \<Rightarrow> (size_list size chs, 0, 0))")
   (auto intro: wf_inv_image wf_lex_prod simp: lookup_array_size lookup_head_size)

text \<open>
  \<open>Encode\<close>; the root is a pointer that may be nil, \<open>None\<close> here.  The result is the error
  returned and the encoder after the call, or \<open>None\<close> when \<open>format\<close> panics.
\<close>

definition Encode ::
  "'w Writer \<Rightarrow> 'w Encoder \<Rightarrow> Node option \<Rightarrow> (error option \<times> 'w Encoder) option" where
  "Encode Wr enc root =
    (if err enc \<noteq> None then Some (err enc, enc)
     else
       case root of
         None \<Rightarrow> Some (None, enc)
       | Some r \<Rightarrow>
           (case format Wr enc r 0 of
              None \<Rightarrow> None
            | Some res \<Rightarrow>
                let enc = (snd res)\<lparr>err := fst res\<rparr>;
                    enc = enc_write Wr enc [[newline]]
                in Some (err enc, enc)))"

definition EncodeWithCustomPrefixes ::
  "'w Writer \<Rightarrow> 'w Encoder \<Rightarrow> Node option \<Rightarrow> string \<Rightarrow> string
     \<Rightarrow> (error option \<times> 'w Encoder) option" where
  "EncodeWithCustomPrefixes Wr enc root contentPrefix' attributePrefix' =
    (let enc = enc\<lparr>contentPrefix := contentPrefix'\<rparr>;
         enc = enc\<lparr>attributePrefix := attributePrefix'\<rparr>
     in Encode Wr enc root)"

section \<open>Two output streams\<close>

text \<open>
  Two implementations of \<open>io.Writer\<close> to run the encoder on: an in-memory buffer that
  appends what it is given and never fails (Go's \<open>bytes.Buffer\<close>), and a stream on which
  every \<open>Write\<close> fails, whose state counts the calls it received.
\<close>

definition bufWrite :: "string Writer" where
  "bufWrite b p = ((length p, None), b @ p)"

definition failWrite :: "nat Writer" where
  "failWrite k p = ((0, Some (WriteError ''closed pipe'')), k + 1)"

section \<open>The blocks of \<open>format\<close>\<close>

text \<open>
  Names for the straight-line blocks of \<open>format\<close>, to state what each one writes:
  \<open>open_object\<close> is the opening brace and the content key (lines 82 to 96),
  \<open>sorted_labels\<close> the collection and sorting of the labels (lines 98 to 106),
  \<open>open_entry\<close> the separator, indentation and key of one entry (lines 113 to 115),
  \<open>format_value\<close> the value of one label (lines 117 to 131), \<open>separator\<close> the value
  given to \<open>com\<close> (lines 133 to 137) and \<open>close_object\<close> the end of the object (lines 140
  to 142).  The lemmas \<open>format_unfold\<close> and \<open>format_labels_Cons\<close> show that \<open>format\<close> is
  made of exactly these blocks.
\<close>

definition open_object :: "'w Writer \<Rightarrow> 'w Encoder \<Rightarrow> Node \<Rightarrow> nat \<Rightarrow> 'w Encoder" where
  "open_object Wr enc curNode lvl =
     (let enc = enc_write Wr enc [''{''];
          enc = (if indent enc then enc_write Wr enc [[newline]] else enc)
      in if length (Data curNode) > 0 then
           let enc = indentN Wr enc (lvl + 1);
               enc = enc_write Wr enc
                      [[dquote], contentPrefix enc, ''content'', [dquote] @ '': '',
                       sanitiseString (Data curNode), '', ''] in
                if indent enc then enc_write Wr enc [[newline]] else enc
         else enc)"

definition sorted_labels :: "Node \<Rightarrow> string list" where
  "sorted_labels curNode =
     (let sl = map fst (Children curNode) in if length sl > 1 then sort sl else sl)"

definition close_object :: "'w Writer \<Rightarrow> 'w Encoder \<Rightarrow> nat \<Rightarrow> 'w Encoder" where
  "close_object Wr enc lvl =
     (let enc = enc_write Wr enc [[newline]];
          enc = indentN Wr enc lvl
      in enc_write Wr enc [''}''])"

definition open_entry :: "'w Writer \<Rightarrow> 'w Encoder \<Rightarrow> nat \<Rightarrow> string \<Rightarrow> string \<Rightarrow> 'w Encoder" where
  "open_entry Wr enc lvl label com =
     (let enc = enc_write Wr enc [com];
          enc = indentN Wr enc (lvl + 1)
      in enc_write Wr enc [[dquote], label, [dquote] @ '': ''])"

definition format_value :: "'w Writer \<Rightarrow> 'w Encoder \<Rightarrow> Node list \<Rightarrow> nat \<Rightarrow> 'w Encoder option" where
  "format_value Wr enc children lvl =
     (if length children > 1 then
        case format_array Wr (enc_write Wr enc [''['']) children lvl [] of
          None \<Rightarrow> None
        | Some enc \<Rightarrow> Some (enc_write Wr enc ['']''])
      else
        case children of
          [] \<Rightarrow> None
        | ch # _ \<Rightarrow> map_option snd (format Wr enc ch (lvl + 1)))"

definition separator :: "'w Encoder \<Rightarrow> string" where
  "separator enc = (if indent enc then '','' @ [newline] else '', '')"

lemma format_unfold:
  "format Wr enc n lvl =
    (if HasChildren n then
       case format_labels Wr (open_object Wr enc n lvl) n lvl (sorted_labels n) [] of
         None \<Rightarrow> None
       | Some e \<Rightarrow> Some (None, close_object Wr e lvl)
     else Some (None, enc_write Wr enc [sanitiseString (Data n)]))"
  by (subst format.simps, unfold open_object_def sorted_labels_def close_object_def Let_def, rule refl)

lemma format_labels_Cons:
  "format_labels Wr enc n lvl (label # rest) com =
    (case format_value Wr (open_entry Wr enc lvl label com) (lookup (Children n) label) lvl of
       None \<Rightarrow> None
     | Some e \<Rightarrow> format_labels Wr e n lvl rest (separator e))"
  by (subst format_labels.simps, unfold open_entry_def format_value_def separator_def Let_def, rule refl)

lemma format_array_Cons:
  "format_array Wr enc (ch # rest) lvl com1 =
    (case format Wr (enc_write Wr enc [com1]) ch (lvl + 2) of
       None \<Rightarrow> None
     | Some r \<Rightarrow> format_array Wr (snd r) rest lvl '', '')"
  by (rule format_array.simps)


lemma format_induct [case_names leaf container labels_Nil labels_Cons array_Nil array_Cons]:
  fixes P :: "'w Writer \<Rightarrow> 'w Encoder \<Rightarrow> Node \<Rightarrow> nat \<Rightarrow> bool"
    and Q :: "'w Writer \<Rightarrow> 'w Encoder \<Rightarrow> Node \<Rightarrow> nat \<Rightarrow> string list \<Rightarrow> string \<Rightarrow> bool"
    and R :: "'w Writer \<Rightarrow> 'w Encoder \<Rightarrow> Node list \<Rightarrow> nat \<Rightarrow> string \<Rightarrow> bool"
  assumes leaf: "\<And>Wr enc n lvl. \<not> HasChildren n \<Longrightarrow> P Wr enc n lvl"
    and container: "\<And>Wr enc n lvl. HasChildren n \<Longrightarrow>
        Q Wr (open_object Wr enc n lvl) n lvl (sorted_labels n) [] \<Longrightarrow> P Wr enc n lvl"
    and labels_Nil: "\<And>Wr enc n lvl com. Q Wr enc n lvl [] com"
    and labels_Cons: "\<And>Wr enc n lvl label rest com.
        (1 < length (lookup (Children n) label) \<Longrightarrow>
           R Wr (enc_write Wr (open_entry Wr enc lvl label com) [''['']) (lookup (Children n) label)
             lvl []) \<Longrightarrow>
        (\<And>ch chs. lookup (Children n) label = ch # chs \<Longrightarrow>
           \<not> 1 < length (lookup (Children n) label) \<Longrightarrow>
           P Wr (open_entry Wr enc lvl label com) ch (lvl + 1)) \<Longrightarrow>
        (\<And>e. format_value Wr (open_entry Wr enc lvl label com) (lookup (Children n) label) lvl
               = Some e \<Longrightarrow> Q Wr e n lvl rest (separator e)) \<Longrightarrow>
        Q Wr enc n lvl (label # rest) com"
    and array_Nil: "\<And>Wr enc lvl com1. R Wr enc [] lvl com1"
    and array_Cons: "\<And>Wr enc ch rest lvl com1.
        P Wr (enc_write Wr enc [com1]) ch (lvl + 2) \<Longrightarrow>
        (\<And>r. format Wr (enc_write Wr enc [com1]) ch (lvl + 2) = Some r \<Longrightarrow>
           R Wr (snd r) rest lvl '', '') \<Longrightarrow>
        R Wr enc (ch # rest) lvl com1"
  shows "P Wr enc n lvl" and "Q Wr enc n lvl sl com" and "R Wr enc chs lvl com1"
proof (induction Wr enc n lvl and Wr enc n lvl sl com and Wr enc chs lvl com1
    rule: format_format_labels_format_array.induct)
  case (1 Wr enc curNode lvl)
  show ?case
  proof (cases "HasChildren curNode")
    case True
    have "Q Wr (open_object Wr enc curNode lvl) curNode lvl (sorted_labels curNode) []"
      unfolding open_object_def sorted_labels_def Let_def
      by (rule 1 [OF True refl refl refl refl refl, unfolded Let_def])
    with True show ?thesis by (rule container)
  next
    case False
    then show ?thesis by (rule leaf)
  qed
next
  case (2 Wr enc curNode lvl com)
  show ?case by (rule labels_Nil)
next
  case (3 Wr enc curNode lvl label rest com)
  show ?case
  proof (rule labels_Cons)
    assume "1 < length (lookup (Children curNode) label)"
    then show "R Wr (enc_write Wr (open_entry Wr enc lvl label com) [''['']) (lookup (Children curNode) label) lvl []"
      unfolding open_entry_def Let_def
      by (rule 3(1) [OF refl refl refl refl])
  next
    fix ch chs
    assume "lookup (Children curNode) label = ch # chs"
      and "\<not> 1 < length (lookup (Children curNode) label)"
    then show "P Wr (open_entry Wr enc lvl label com) ch (lvl + 1)"
      unfolding open_entry_def Let_def
      by (intro 3(2) [OF refl refl refl refl])
  next
    fix e
    assume "format_value Wr (open_entry Wr enc lvl label com) (lookup (Children curNode) label) lvl = Some e"
    then show "Q Wr e curNode lvl rest (separator e)"
      unfolding open_entry_def format_value_def separator_def Let_def
      by (intro 3(3) [OF refl refl refl refl refl])
  qed
next
  case (4 Wr enc lvl com1)
  show ?case by (rule array_Nil)
next
  case (5 Wr enc ch rest lvl com1)
  show ?case by (rule array_Cons) (rule 5(1), rule 5(2))
qed

section \<open>The encoder only touches its stream\<close>

declare format.simps [simp del] format_labels.simps [simp del] format_array.simps [simp del]
declare indentN_loop.simps [simp del] sanitise_loop.simps [simp del] enc_write.simps [simp del]

lemma format_labels_Nil [simp]: "format_labels Wr enc n lvl [] com = Some enc"
  by (simp add: format_labels.simps)

lemma format_array_Nil [simp]: "format_array Wr enc [] lvl com1 = Some enc"
  by (simp add: format_array.simps)

text \<open>
  The configuration of an encoder: every field but the stream.  Nothing in \<open>format\<close>
  assigns to these fields, whatever the stream does.
\<close>

definition cfg :: "'w Encoder \<Rightarrow> error option \<times> string \<times> string \<times> bool \<times> string" where
  "cfg enc = (err enc, contentPrefix enc, attributePrefix enc, indent enc, indentText enc)"

lemma cfg_enc_write [simp]: "cfg (enc_write Wr enc ss) = cfg enc"
  by (induction ss arbitrary: enc) (simp_all add: cfg_def enc_write.simps)

lemma cfg_indentN_loop [simp]: "cfg (indentN_loop Wr enc ii n) = cfg enc"
  by (induction Wr enc ii n rule: indentN_loop.induct) (subst indentN_loop.simps, simp)

lemma cfg_indentN [simp]: "cfg (indentN Wr enc n) = cfg enc"
  by (simp add: indentN_def)

lemma cfg_open_object [simp]: "cfg (open_object Wr enc n lvl) = cfg enc"
  by (simp add: open_object_def Let_def)

lemma cfg_close_object [simp]: "cfg (close_object Wr enc lvl) = cfg enc"
  by (simp add: close_object_def Let_def)

lemma cfg_open_entry [simp]: "cfg (open_entry Wr enc lvl label com) = cfg enc"
  by (simp add: open_entry_def Let_def)

lemma cfg_format:
  "\<forall>res. format Wr enc n lvl = Some res \<longrightarrow> fst res = None \<and> cfg (snd res) = cfg enc"
  "\<forall>e. format_labels Wr enc n lvl sl com = Some e \<longrightarrow> cfg e = cfg enc"
  "\<forall>e. format_array Wr enc chs lvl com1 = Some e \<longrightarrow> cfg e = cfg enc"
proof (induction Wr enc n lvl and Wr enc n lvl sl com and Wr enc chs lvl com1 rule: format_induct)
  case (leaf Wr enc n lvl)
  then show ?case by (simp add: format_unfold)
next
  case (container Wr enc n lvl)
  show ?case
  proof (intro allI impI)
    fix res
    assume a: "format Wr enc n lvl = Some res"
    with container(1) obtain e
      where l: "format_labels Wr (open_object Wr enc n lvl) n lvl (sorted_labels n) [] = Some e"
        and r: "res = (None, close_object Wr e lvl)"
      by (auto simp: format_unfold split: option.splits)
    from container(2) l have "cfg e = cfg enc" by simp
    with r show "fst res = None \<and> cfg (snd res) = cfg enc" by simp
  qed
next
  case (labels_Nil Wr enc n lvl com)
  show ?case by simp
next
  case (labels_Cons Wr enc n lvl label rest com)
  show ?case
  proof (intro allI impI)
    fix e
    assume a: "format_labels Wr enc n lvl (label # rest) com = Some e"
    then obtain e1 where v: "format_value Wr (open_entry Wr enc lvl label com) (lookup (Children n) label) lvl = Some e1"
      and r: "format_labels Wr e1 n lvl rest (separator e1) = Some e"
      by (auto simp: format_labels_Cons split: option.splits)
    from labels_Cons(3) [OF v] r have "cfg e = cfg e1" by simp
    moreover have "cfg e1 = cfg enc"
    proof (cases "1 < length (lookup (Children n) label)")
      case True
      with v labels_Cons(1) show ?thesis
        by (auto simp: format_value_def split: option.splits)
    next
      case False
      with v labels_Cons(2) show ?thesis
        by (auto simp: format_value_def split: option.splits list.splits)
    qed
    ultimately show "cfg e = cfg enc" by simp
  qed
next
  case (array_Nil Wr enc lvl com1)
  show ?case by simp
next
  case (array_Cons Wr enc ch rest lvl com1)
  show ?case
  proof (intro allI impI)
    fix e
    assume a: "format_array Wr enc (ch # rest) lvl com1 = Some e"
    then obtain r where f: "format Wr (enc_write Wr enc [com1]) ch (lvl + 2) = Some r"
      and l: "format_array Wr (snd r) rest lvl '', '' = Some e"
      by (auto simp: format_array_Cons split: option.splits)
    from array_Cons(1) f have "cfg (snd r) = cfg enc" by (cases r) simp
    moreover from array_Cons(2) [OF f] l have "cfg e = cfg (snd r)" by simp
    ultimately show "cfg e = cfg enc" by simp
  qed
qed

section \<open>What the encoder writes into a buffer\<close>

text \<open>
  The text that each block appends when the stream is a buffer.  \<open>join\<close> puts a separator
  between the elements of a list of strings; \<open>emitted enc n lvl\<close> is the text that
  \<open>format\<close> writes for the node \<open>n\<close> alone, into an empty buffer.
\<close>

fun join :: "string \<Rightarrow> string list \<Rightarrow> string" where
  "join sep [] = []"
| "join sep [x] = x"
| "join sep (x # y # ys) = x @ sep @ join sep (y # ys)"

definition indent_text :: "'w Encoder \<Rightarrow> nat \<Rightarrow> string" where
  "indent_text enc k = (if indent enc then concat (replicate k (indentText enc)) else [])"

definition nl_text :: "'w Encoder \<Rightarrow> string" where
  "nl_text enc = (if indent enc then [newline] else [])"

definition content_text :: "'w Encoder \<Rightarrow> Node \<Rightarrow> nat \<Rightarrow> string" where
  "content_text enc n lvl =
     indent_text enc (lvl + 1) @ [dquote] @ contentPrefix enc @ ''content'' @ [dquote] @ '': ''
       @ sanitiseString (Data n) @ '', '' @ nl_text enc"

definition open_text :: "'w Encoder \<Rightarrow> Node \<Rightarrow> nat \<Rightarrow> string" where
  "open_text enc n lvl =
     ''{'' @ nl_text enc @ (if Data n \<noteq> [] then content_text enc n lvl else [])"

definition close_text :: "'w Encoder \<Rightarrow> nat \<Rightarrow> string" where
  "close_text enc lvl = [newline] @ indent_text enc lvl @ ''}''"

definition key_text :: "'w Encoder \<Rightarrow> nat \<Rightarrow> string \<Rightarrow> string" where
  "key_text enc lvl label = indent_text enc (lvl + 1) @ [dquote] @ label @ [dquote] @ '': ''"

definition emitted :: "string Encoder \<Rightarrow> Node \<Rightarrow> nat \<Rightarrow> string" where
  "emitted enc n lvl =
     (case format bufWrite (enc\<lparr>w := []\<rparr>) n lvl of None \<Rightarrow> [] | Some r \<Rightarrow> w (snd r))"

lemma cfg_w_update [simp]: "cfg (enc\<lparr>w := x\<rparr>) = cfg enc"
  by (simp add: cfg_def)

lemma cfg_eqD:
  assumes "cfg a = cfg b"
  shows "a = b\<lparr>w := w a\<rparr>"
  using assms by (cases a, cases b) (simp add: cfg_def)

lemma cfg_fields:
  assumes "cfg a = cfg b"
  shows "err a = err b" "contentPrefix a = contentPrefix b" "attributePrefix a = attributePrefix b"
    "indent a = indent b" "indentText a = indentText b"
  using assms by (simp_all add: cfg_def)

lemma indent_text_cfg: "cfg a = cfg b \<Longrightarrow> indent_text a k = indent_text b k"
  by (simp add: indent_text_def cfg_def)

lemma nl_text_cfg: "cfg a = cfg b \<Longrightarrow> nl_text a = nl_text b"
  by (simp add: nl_text_def cfg_def)

lemma separator_cfg: "cfg a = cfg b \<Longrightarrow> separator a = separator b"
  by (simp add: separator_def cfg_def)

lemma enc_write_buf: "enc_write bufWrite enc ss = enc\<lparr>w := w enc @ concat ss\<rparr>"
  by (induction ss arbitrary: enc) (simp_all add: enc_write.simps bufWrite_def)

lemma indentN_loop_buf:
  "indentN_loop bufWrite enc ii n = enc\<lparr>w := w enc @ concat (replicate (n - ii) (indentText enc))\<rparr>"
proof (induction "bufWrite" enc ii n rule: indentN_loop.induct)
  case (1 enc ii n)
  show ?case
  proof (cases "ii < n")
    case True
    then have "n - ii = Suc (n - (ii + 1))" by simp
    with True 1 show ?thesis
      by (subst indentN_loop.simps) (simp add: enc_write_buf)
  next
    case False
    then show ?thesis by (subst indentN_loop.simps) simp
  qed
qed

lemma indentN_buf: "indentN bufWrite enc n = enc\<lparr>w := w enc @ indent_text enc n\<rparr>"
  by (simp add: indentN_def indentN_loop_buf indent_text_def)

lemma indent_text_w [simp]: "indent_text (enc\<lparr>w := x\<rparr>) k = indent_text enc k"
  by (simp add: indent_text_def)

lemma nl_text_w [simp]: "nl_text (enc\<lparr>w := x\<rparr>) = nl_text enc"
  by (simp add: nl_text_def)

lemma close_text_w [simp]: "close_text (enc\<lparr>w := x\<rparr>) lvl = close_text enc lvl"
  by (simp add: close_text_def)

lemma open_text_w [simp]: "open_text (enc\<lparr>w := x\<rparr>) n lvl = open_text enc n lvl"
  by (simp add: open_text_def content_text_def)

lemma open_object_buf: "open_object bufWrite enc n lvl = enc\<lparr>w := w enc @ open_text enc n lvl\<rparr>"
  by (simp add: open_object_def Let_def enc_write_buf indentN_buf open_text_def content_text_def
      nl_text_def)

lemma close_object_buf: "close_object bufWrite enc lvl = enc\<lparr>w := w enc @ close_text enc lvl\<rparr>"
  by (simp add: close_object_def Let_def enc_write_buf indentN_buf close_text_def)

lemma open_entry_buf:
  "open_entry bufWrite enc lvl label com = enc\<lparr>w := w enc @ com @ key_text enc lvl label\<rparr>"
  by (simp add: open_entry_def Let_def enc_write_buf indentN_buf key_text_def)


text \<open>What is already in the buffer does not matter: a prefix passes through unchanged.\<close>

definition shift :: "string \<Rightarrow> string Encoder \<Rightarrow> string Encoder" where
  "shift p enc = enc\<lparr>w := p @ w enc\<rparr>"

lemma cfg_shift [simp]: "cfg (shift p enc) = cfg enc"
  by (simp add: shift_def)

lemma w_shift [simp]: "w (shift p enc) = p @ w enc"
  by (simp add: shift_def)

lemma separator_shift [simp]: "separator (shift p enc) = separator enc"
  by (simp add: separator_def shift_def)

lemma enc_write_shift: "enc_write bufWrite (shift p enc) ss = shift p (enc_write bufWrite enc ss)"
  by (simp add: enc_write_buf shift_def)

lemma open_object_shift:
  "open_object bufWrite (shift p enc) n lvl = shift p (open_object bufWrite enc n lvl)"
  by (simp add: open_object_buf shift_def open_text_def content_text_def)

lemma close_object_shift:
  "close_object bufWrite (shift p enc) lvl = shift p (close_object bufWrite enc lvl)"
  by (simp add: close_object_buf shift_def close_text_def)

lemma open_entry_shift:
  "open_entry bufWrite (shift p enc) lvl label com = shift p (open_entry bufWrite enc lvl label com)"
  by (simp add: open_entry_buf shift_def key_text_def)

lemma format_shift:
  "Wr = bufWrite \<longrightarrow> (\<forall>p. format Wr (shift p enc) n lvl
      = map_option (\<lambda>r. (fst r, shift p (snd r))) (format Wr enc n lvl))"
  "Wr = bufWrite \<longrightarrow> (\<forall>p. format_labels Wr (shift p enc) n lvl sl com
      = map_option (shift p) (format_labels Wr enc n lvl sl com))"
  "Wr = bufWrite \<longrightarrow> (\<forall>p. format_array Wr (shift p enc) chs lvl com1
      = map_option (shift p) (format_array Wr enc chs lvl com1))"
proof (induction Wr enc n lvl and Wr enc n lvl sl com and Wr enc chs lvl com1 rule: format_induct)
  case (leaf Wr enc n lvl)
  then show ?case by (simp add: format_unfold enc_write_shift)
next
  case (container Wr enc n lvl)
  show ?case
  proof (intro impI allI)
    fix p
    assume Wr: "Wr = bufWrite"
    with container(2) have IH: "format_labels bufWrite (shift p (open_object bufWrite enc n lvl)) n lvl
        (sorted_labels n) [] = map_option (shift p)
          (format_labels bufWrite (open_object bufWrite enc n lvl) n lvl (sorted_labels n) [])"
      by simp
    show "format Wr (shift p enc) n lvl = map_option (\<lambda>r. (fst r, shift p (snd r))) (format Wr enc n lvl)"
      unfolding Wr format_unfold [of bufWrite] open_object_shift IH
      using container(1) by (simp add: close_object_shift split: option.split)
  qed
next
  case (labels_Nil Wr enc n lvl com)
  show ?case by simp
next
  case (labels_Cons Wr enc n lvl label rest com)
  show ?case
  proof (intro impI allI)
    fix p
    assume Wr: "Wr = bufWrite"
    let ?chs = "lookup (Children n) label"
    let ?E = "open_entry bufWrite enc lvl label com"
    have val: "format_value bufWrite (shift p ?E) ?chs lvl
        = map_option (shift p) (format_value bufWrite ?E ?chs lvl)"
    proof (cases "1 < length ?chs")
      case True
      from labels_Cons(1) [OF True] Wr
      have "format_array bufWrite (shift p (enc_write bufWrite ?E [''[''])) ?chs lvl []
          = map_option (shift p) (format_array bufWrite (enc_write bufWrite ?E [''['']) ?chs lvl [])"
        by simp
      with True show ?thesis
        by (simp add: format_value_def enc_write_shift split: option.split)
    next
      case False
      show ?thesis
      proof (cases ?chs)
        case Nil
        with False show ?thesis by (simp add: format_value_def)
      next
        case (Cons ch chs')
        from labels_Cons(2) [OF Cons False] Wr
        have "format bufWrite (shift p ?E) ch (lvl + 1)
            = map_option (\<lambda>r. (fst r, shift p (snd r))) (format bufWrite ?E ch (lvl + 1))"
          by simp
        with False Cons show ?thesis
          by (simp add: format_value_def option.map_comp comp_def)
      qed
    qed
    show "format_labels Wr (shift p enc) n lvl (label # rest) com
        = map_option (shift p) (format_labels Wr enc n lvl (label # rest) com)"
    proof (cases "format_value bufWrite ?E ?chs lvl")
      case None
      with val show ?thesis
        unfolding Wr by (simp add: format_labels_Cons open_entry_shift)
    next
      case (Some e)
      from labels_Cons(3) [of e] Some Wr
      have "format_labels bufWrite (shift p e) n lvl rest (separator e)
          = map_option (shift p) (format_labels bufWrite e n lvl rest (separator e))"
        by simp
      with val Some show ?thesis
        unfolding Wr by (simp add: format_labels_Cons open_entry_shift)
    qed
  qed
next
  case (array_Nil Wr enc lvl com1)
  show ?case by simp
next
  case (array_Cons Wr enc ch rest lvl com1)
  show ?case
  proof (intro impI allI)
    fix p
    assume Wr: "Wr = bufWrite"
    let ?E = "enc_write bufWrite enc [com1]"
    from array_Cons(1) Wr
    have f: "format bufWrite (shift p ?E) ch (lvl + 2)
        = map_option (\<lambda>r. (fst r, shift p (snd r))) (format bufWrite ?E ch (lvl + 2))"
      by simp
    show "format_array Wr (shift p enc) (ch # rest) lvl com1
        = map_option (shift p) (format_array Wr enc (ch # rest) lvl com1)"
    proof (cases "format bufWrite ?E ch (lvl + 2)")
      case None
      with f show ?thesis
        unfolding Wr by (simp add: format_array_Cons enc_write_shift)
    next
      case (Some r)
      from array_Cons(2) [of r] Some Wr
      have "format_array bufWrite (shift p (snd r)) rest lvl '', ''
          = map_option (shift p) (format_array bufWrite (snd r) rest lvl '', '')"
        by simp
      with f Some show ?thesis
        unfolding Wr by (simp add: format_array_Cons enc_write_shift)
    qed
  qed
qed


lemma emitted_w [simp]: "emitted (enc\<lparr>w := x\<rparr>) n lvl = emitted enc n lvl"
  by (simp add: emitted_def)


lemma shift_w_update: "shift p (enc\<lparr>w := x\<rparr>) = enc\<lparr>w := p @ x\<rparr>"
  by (simp add: shift_def)

lemma format_buf_eq:
  "format bufWrite enc n lvl
     = map_option (\<lambda>r. (None, enc\<lparr>w := w enc @ w (snd r)\<rparr>)) (format bufWrite (enc\<lparr>w := []\<rparr>) n lvl)"
proof (cases "format bufWrite (enc\<lparr>w := []\<rparr>) n lvl")
  case None
  with format_shift(1) [of bufWrite "enc\<lparr>w := []\<rparr>" n lvl]
  have "format bufWrite (shift (w enc) (enc\<lparr>w := []\<rparr>)) n lvl = None" by simp
  with None show ?thesis by (simp add: shift_w_update)
next
  case (Some r0)
  from cfg_format(1) [of bufWrite "enc\<lparr>w := []\<rparr>" n lvl] Some
  have n: "fst r0 = None" and c: "cfg (snd r0) = cfg (enc\<lparr>w := []\<rparr>)" by simp_all
  from cfg_eqD [OF c] have "snd r0 = enc\<lparr>w := w (snd r0)\<rparr>" by simp
  then have "shift (w enc) (snd r0) = shift (w enc) (enc\<lparr>w := w (snd r0)\<rparr>)" by simp
  then have s: "shift (w enc) (snd r0) = enc\<lparr>w := w enc @ w (snd r0)\<rparr>"
    by (simp only: shift_w_update)
  from format_shift(1) [of bufWrite "enc\<lparr>w := []\<rparr>" n lvl] Some
  have "format bufWrite (shift (w enc) (enc\<lparr>w := []\<rparr>)) n lvl
      = Some (fst r0, shift (w enc) (snd r0))" by simp
  with Some n s show ?thesis by (simp add: shift_w_update)
qed

lemma format_buf:
  assumes "format bufWrite enc n lvl = Some r"
  shows "r = (None, enc\<lparr>w := w enc @ emitted enc n lvl\<rparr>)"
  using assms by (subst (asm) format_buf_eq) (auto simp: emitted_def)


text \<open>The text of an array, of the value of a label, and of the entries of an object.\<close>

definition elements_text :: "string Encoder \<Rightarrow> Node list \<Rightarrow> nat \<Rightarrow> string list" where
  "elements_text enc chs lvl = map (\<lambda>ch. emitted enc ch (lvl + 2)) chs"

definition value_text :: "string Encoder \<Rightarrow> Node list \<Rightarrow> nat \<Rightarrow> string" where
  "value_text enc chs lvl =
     (if length chs > 1 then ''['' @ join '', '' (elements_text enc chs lvl) @ '']''
      else emitted enc (chs ! 0) (lvl + 1))"

definition entry_text :: "string Encoder \<Rightarrow> Node \<Rightarrow> nat \<Rightarrow> string \<Rightarrow> string" where
  "entry_text enc n lvl label =
     key_text enc lvl label @ value_text enc (lookup (Children n) label) lvl"

lemma join_Cons: "join sep (x # xs) = x @ (if xs = [] then [] else sep @ join sep xs)"
  by (cases xs) simp_all

lemma elements_text_w [simp]: "elements_text (enc\<lparr>w := x\<rparr>) chs lvl = elements_text enc chs lvl"
  by (simp add: elements_text_def)

lemma value_text_w [simp]: "value_text (enc\<lparr>w := x\<rparr>) chs lvl = value_text enc chs lvl"
  by (simp add: value_text_def)

lemma key_text_w [simp]: "key_text (enc\<lparr>w := x\<rparr>) lvl label = key_text enc lvl label"
  by (simp add: key_text_def)

lemma entry_text_w [simp]: "entry_text (enc\<lparr>w := x\<rparr>) = entry_text enc"
  by (intro ext) (simp add: entry_text_def)

lemma separator_w [simp]: "separator (enc\<lparr>w := x\<rparr>) = separator enc"
  by (simp add: separator_def)

lemma format_array_buf:
  "format_array bufWrite enc chs lvl com1 = Some e \<Longrightarrow>
     e = enc\<lparr>w := w enc @ (if chs = [] then [] else com1 @ join '', '' (elements_text enc chs lvl))\<rparr>"
proof (induction chs arbitrary: enc com1)
  case Nil
  then show ?case by simp
next
  case (Cons ch rest)
  let ?E = "enc_write bufWrite enc [com1]"
  from Cons.prems obtain r where f: "format bufWrite ?E ch (lvl + 2) = Some r"
    and l: "format_array bufWrite (snd r) rest lvl '', '' = Some e"
    by (auto simp: format_array_Cons split: option.splits)
  from format_buf [OF f] have r: "snd r = enc\<lparr>w := w enc @ com1 @ emitted enc ch (lvl + 2)\<rparr>"
    by (simp add: enc_write_buf)
  from Cons.IH [OF l] show ?case
    unfolding r by (simp add: elements_text_def join_Cons)
qed

lemma format_value_buf:
  assumes "format_value bufWrite enc chs lvl = Some e"
  shows "e = enc\<lparr>w := w enc @ value_text enc chs lvl\<rparr>"
proof (cases "1 < length chs")
  case True
  with assms obtain e0 where a: "format_array bufWrite (enc_write bufWrite enc [''['']) chs lvl [] = Some e0"
    and e: "e = enc_write bufWrite e0 ['']'']"
    by (auto simp: format_value_def split: option.splits)
  from True have "chs \<noteq> []" by auto
  with format_array_buf [OF a] e True show ?thesis
    by (simp add: enc_write_buf value_text_def)
next
  case False
  with assms obtain ch rest r where c: "chs = ch # rest"
    and f: "format bufWrite enc ch (lvl + 1) = Some r" and e: "e = snd r"
    by (auto simp: format_value_def split: list.splits)
  from format_buf [OF f] e c False show ?thesis
    by (simp add: value_text_def)
qed

lemma format_labels_buf:
  "format_labels bufWrite enc n lvl sl com = Some e \<Longrightarrow>
     e = enc\<lparr>w := w enc @ (if sl = [] then []
           else com @ join (separator enc) (map (entry_text enc n lvl) sl))\<rparr>"
proof (induction sl arbitrary: enc com)
  case Nil
  then show ?case by simp
next
  case (Cons label rest)
  let ?E = "open_entry bufWrite enc lvl label com"
  from Cons.prems obtain e1
    where v: "format_value bufWrite ?E (lookup (Children n) label) lvl = Some e1"
      and l: "format_labels bufWrite e1 n lvl rest (separator e1) = Some e"
    by (auto simp: format_labels_Cons split: option.splits)
  from format_value_buf [OF v]
  have e1: "e1 = enc\<lparr>w := w enc @ com @ entry_text enc n lvl label\<rparr>"
    by (simp add: open_entry_buf entry_text_def)
  from Cons.IH [OF l] show ?case
    unfolding e1 by (simp add: join_Cons)
qed

lemma format_container_buf:
  assumes "format bufWrite enc n lvl = Some r" and "HasChildren n"
  shows "snd r = enc\<lparr>w := w enc @ open_text enc n lvl
           @ join (separator enc) (map (entry_text enc n lvl) (sorted_labels n))
           @ close_text enc lvl\<rparr>"
proof -
  from assms obtain e
    where l: "format_labels bufWrite (open_object bufWrite enc n lvl) n lvl (sorted_labels n) [] = Some e"
      and r: "r = (None, close_object bufWrite e lvl)"
    by (auto simp: format_unfold split: option.splits)
  have "length (sorted_labels n) = length (Children n)"
    by (simp add: sorted_labels_def Let_def)
  with assms(2) have "sorted_labels n \<noteq> []"
    by (auto simp: HasChildren_def)
  with format_labels_buf [OF l] r show ?thesis
    by (simp add: open_object_buf close_object_buf)
qed


section \<open>Encode and the stored error\<close>

text \<open>
  \<open>Encode\<close> returns the error the encoder had stored before the call, and leaves the
  configuration and the stored error as they were.
\<close>

lemma Encode_frame:
  assumes "Encode Wr enc root = Some (r, enc')"
  shows "r = err enc \<and> cfg enc' = cfg enc"
proof (cases "err enc \<noteq> None")
  case True
  with assms show ?thesis by (auto simp: Encode_def)
next
  case False
  note noerr = this
  show ?thesis
  proof (cases root)
    case None
    with assms noerr show ?thesis by (auto simp: Encode_def)
  next
    case (Some n)
    show ?thesis
    proof (cases "format Wr enc n 0")
      case None
      with assms noerr Some show ?thesis by (simp add: Encode_def)
    next
      case (Some res)
      let ?e = "enc_write Wr ((snd res)\<lparr>err := fst res\<rparr>) [[newline]]"
      from assms noerr \<open>root = Some n\<close> Some have r: "r = err ?e" and e: "enc' = ?e"
        by (auto simp add: Encode_def Let_def)
      from cfg_format(1) [of Wr enc n 0] Some
      have n: "fst res = None" and c: "cfg (snd res) = cfg enc"
        by simp_all
      from c noerr n have "cfg ((snd res)\<lparr>err := fst res\<rparr>) = cfg enc"
        by (simp add: cfg_def)
      then have "cfg ?e = cfg enc" by simp
      then show ?thesis unfolding r e by (simp add: cfg_def)
    qed
  qed
qed

section \<open>The text of a node\<close>





section \<open>The order of the labels\<close>

text \<open>
  \<open>sort.Strings\<close> sorts by Go's \<open><\<close> on strings, which compares byte by byte, a proper
  prefix coming first.  This is the order of \<open>HOL-Library.List_Lexorder\<close> over the
  bytes ordered by value (\<open>HOL-Library.Char_ord\<close>); the labels of a map are distinct,
  so the sorted sequence is unique and the sorting algorithm does not matter.
\<close>

lemma string_less_bytewise:
  "([] :: string) < y # ys"
  "\<not> xs < ([] :: string)"
  "(x # xs :: string) < y # ys \<longleftrightarrow>
     (of_char x :: nat) < of_char y \<or> x = y \<and> xs < ys"
  by (auto simp: less_char_def)

lemma sorted_labels_sort: "sorted_labels n = sort (map fst (Children n))"
proof (cases "1 < length (Children n)")
  case True
  then show ?thesis by (simp add: sorted_labels_def)
next
  case False
  then have "length (map fst (Children n)) \<le> 1" by simp
  then have "sort (map fst (Children n)) = map fst (Children n)"
    by (cases "map fst (Children n)") (simp_all add: Suc_le_eq)
  with False show ?thesis by (simp add: sorted_labels_def)
qed

lemma format_labels_cong:
  assumes "\<And>l. lookup (Children n') l = lookup (Children n) l"
  shows "format_labels Wr enc n' lvl sl com = format_labels Wr enc n lvl sl com"
proof (induction sl arbitrary: enc com)
  case Nil
  show ?case by simp
next
  case (Cons label rest)
  show ?case
    by (simp add: format_labels_Cons assms Cons.IH cong: option.case_cong)
qed

lemma same_map_lookup:
  assumes "distinct (map fst cs)" and "distinct (map fst cs')" and "set cs' = set cs"
  shows "lookup cs' l = lookup cs l"
proof -
  from assms have "map_of cs' = map_of cs"
    by (simp add: map_of_inject_set)
  then show ?thesis by (simp add: lookup_def)
qed

lemma same_map_labels:
  assumes "distinct (map fst cs)" and "distinct (map fst cs')" and "set cs' = set cs"
  shows "sort (map fst cs') = sort (map fst cs)"
proof -
  from assms(3) have "set (map fst cs') = set (map fst cs)" by simp
  with assms(1,2) show ?thesis
    by (intro sorted_distinct_set_unique) simp_all
qed

lemma format_same_map:
  assumes "distinct (map fst cs)" and "distinct (map fst cs')" and "set cs' = set cs"
  shows "format Wr enc (Node d cs') lvl = format Wr enc (Node d cs) lvl"
proof -
  from assms(3) have e: "cs' = [] \<longleftrightarrow> cs = []" by auto
  have o: "open_object Wr enc (Node d cs') lvl = open_object Wr enc (Node d cs) lvl"
    by (simp add: open_object_def Let_def)
  have l: "format_labels Wr e (Node d cs') lvl sl com = format_labels Wr e (Node d cs) lvl sl com"
    for e sl com
    by (rule format_labels_cong) (simp add: same_map_lookup [OF assms])
  show ?thesis
    unfolding format_unfold [of Wr enc "Node d cs'"] format_unfold [of Wr enc "Node d cs"]
    by (simp add: HasChildren_def e o l sorted_labels_sort same_map_labels [OF assms])
qed

section \<open>Well-formed trees are encoded without a panic\<close>

text \<open>
  A tree is well formed when, at every node, the labels are distinct (it is a map) and
  every label has at least one child (the invariant of the data model).
\<close>

fun wf_node :: "Node \<Rightarrow> bool" where
  "wf_node (Node d cs) =
     (distinct (map fst cs) \<and> list_all (\<lambda>e. snd e \<noteq> [] \<and> list_all wf_node (snd e)) cs)"

lemma wf_node_lookup:
  assumes "wf_node n" and "l \<in> set (map fst (Children n))"
  shows "lookup (Children n) l \<noteq> [] \<and> list_all wf_node (lookup (Children n) l)"
proof -
  obtain d cs where n: "n = Node d cs" by (cases n)
  from assms(2) n obtain chs where "map_of cs l = Some chs"
    by (cases "map_of cs l") (auto simp: map_of_eq_None_iff)
  moreover from this have "(l, chs) \<in> set cs" by (rule map_of_SomeD)
  ultimately show ?thesis using assms(1) n
    by (auto simp: lookup_def list_all_iff)
qed

lemma format_total:
  "wf_node n \<longrightarrow> format Wr enc n lvl \<noteq> None"
  "(\<forall>l \<in> set sl. lookup (Children n) l \<noteq> [] \<and> list_all wf_node (lookup (Children n) l))
     \<longrightarrow> format_labels Wr enc n lvl sl com \<noteq> None"
  "list_all wf_node chs \<longrightarrow> format_array Wr enc chs lvl com1 \<noteq> None"
proof (induction Wr enc n lvl and Wr enc n lvl sl com and Wr enc chs lvl com1 rule: format_induct)
  case (leaf Wr enc n lvl)
  then show ?case by (simp add: format_unfold)
next
  case (container Wr enc n lvl)
  show ?case
  proof
    assume wf: "wf_node n"
    have "\<forall>l \<in> set (sorted_labels n). lookup (Children n) l \<noteq> [] \<and> list_all wf_node (lookup (Children n) l)"
      using wf_node_lookup [OF wf] by (simp add: sorted_labels_sort)
    with container(2) have "format_labels Wr (open_object Wr enc n lvl) n lvl (sorted_labels n) [] \<noteq> None"
      by simp
    with container(1) show "format Wr enc n lvl \<noteq> None"
      by (auto simp: format_unfold)
  qed
next
  case (labels_Nil Wr enc n lvl com)
  show ?case by simp
next
  case (labels_Cons Wr enc n lvl label rest com)
  show ?case
  proof
    let ?chs = "lookup (Children n) label"
    let ?E = "open_entry Wr enc lvl label com"
    assume a: "\<forall>l \<in> set (label # rest). lookup (Children n) l \<noteq> [] \<and> list_all wf_node (lookup (Children n) l)"
    then have ne: "?chs \<noteq> []" and wf: "list_all wf_node ?chs" by simp_all
    have "format_value Wr ?E ?chs lvl \<noteq> None"
    proof (cases "1 < length ?chs")
      case True
      with labels_Cons(1) wf have "format_array Wr (enc_write Wr ?E [''['']) ?chs lvl [] \<noteq> None"
        by simp
      with True show ?thesis by (auto simp: format_value_def)
    next
      case False
      from ne obtain ch chs' where c: "?chs = ch # chs'" by (cases ?chs) auto
      with wf have "wf_node ch" by simp
      with labels_Cons(2) [OF c False] have "format Wr ?E ch (lvl + 1) \<noteq> None" by simp
      with False c show ?thesis by (auto simp: format_value_def)
    qed
    then obtain e where v: "format_value Wr ?E ?chs lvl = Some e" by auto
    from labels_Cons(3) [OF v] a have "format_labels Wr e n lvl rest (separator e) \<noteq> None" by simp
    with v show "format_labels Wr enc n lvl (label # rest) com \<noteq> None"
      by (simp add: format_labels_Cons)
  qed
next
  case (array_Nil Wr enc lvl com1)
  show ?case by simp
next
  case (array_Cons Wr enc ch rest lvl com1)
  show ?case
  proof
    assume a: "list_all wf_node (ch # rest)"
    with array_Cons(1) obtain r where f: "format Wr (enc_write Wr enc [com1]) ch (lvl + 2) = Some r"
      by auto
    from array_Cons(2) [OF f] a have "format_array Wr (snd r) rest lvl '', '' \<noteq> None" by simp
    with f show "format_array Wr enc (ch # rest) lvl com1 \<noteq> None"
      by (simp add: format_array_Cons)
  qed
qed

lemma Encode_returns:
  assumes "\<forall>n. root = Some n \<longrightarrow> wf_node n"
  shows "\<exists>enc'. Encode Wr enc root = Some (err enc, enc')"
proof (cases "err enc \<noteq> None")
  case True
  then show ?thesis by (simp add: Encode_def)
next
  case False
  show ?thesis
  proof (cases root)
    case None
    with False show ?thesis by (simp add: Encode_def)
  next
    case (Some n)
    with assms format_total(1) [of n Wr enc 0] obtain res where f: "format Wr enc n 0 = Some res"
      by auto
    from cfg_format(1) [of Wr enc n 0] f have "fst res = None" and "cfg (snd res) = cfg enc"
      by simp_all
    then have "err (enc_write Wr ((snd res)\<lparr>err := fst res\<rparr>) [[newline]]) = None"
      using cfg_enc_write [of Wr "(snd res)\<lparr>err := fst res\<rparr>" "[[newline]]"]
      by (simp add: cfg_def)
    with False Some f show ?thesis by (simp add: Encode_def Let_def)
  qed
qed

section \<open>Every child is encoded on its own\<close>

text \<open>
  A successful run has found at least one child under every label, and has encoded
  every child: \<open>encodes_alone enc ch lvl\<close> says that \<open>format\<close>, run on the child \<open>ch\<close> alone
  with an empty buffer, succeeds and writes \<open>emitted enc ch lvl\<close>.  \<open>child_level\<close> is the
  level at which the children of a label are encoded: one deeper for a single child, two
  deeper for the elements of an array.
\<close>

lemma format_value_nonempty:
  assumes "format_value Wr enc chs lvl = Some e"
  shows "chs \<noteq> []"
  using assms by (auto simp: format_value_def)

lemma format_labels_nonempty:
  "format_labels Wr enc n lvl sl com = Some e \<Longrightarrow>
     list_all (\<lambda>l. lookup (Children n) l \<noteq> []) sl"
proof (induction sl arbitrary: enc com)
  case Nil
  show ?case by simp
next
  case (Cons label rest)
  from Cons.prems obtain e1
    where v: "format_value Wr (open_entry Wr enc lvl label com) (lookup (Children n) label) lvl = Some e1"
      and l: "format_labels Wr e1 n lvl rest (separator e1) = Some e"
    by (auto simp: format_labels_Cons split: option.splits)
  from format_value_nonempty [OF v] Cons.IH [OF l] show ?case by simp
qed

definition encodes_alone :: "string Encoder \<Rightarrow> Node \<Rightarrow> nat \<Rightarrow> bool" where
  "encodes_alone enc ch lvl =
     (format bufWrite (enc\<lparr>w := []\<rparr>) ch lvl = Some (None, enc\<lparr>w := emitted enc ch lvl\<rparr>))"

lemma encodes_alone_w [simp]: "encodes_alone (enc\<lparr>w := x\<rparr>) ch lvl = encodes_alone enc ch lvl"
  by (simp add: encodes_alone_def)

lemma encodes_aloneI:
  assumes "format bufWrite enc ch lvl = Some r"
  shows "encodes_alone enc ch lvl"
proof -
  from assms obtain r0 where r0: "format bufWrite (enc\<lparr>w := []\<rparr>) ch lvl = Some r0"
    by (subst (asm) format_buf_eq) auto
  from format_buf [OF r0] r0 show ?thesis by (simp add: encodes_alone_def)
qed

lemma format_array_alone:
  "format_array bufWrite enc chs lvl com1 = Some e \<Longrightarrow>
     list_all (\<lambda>ch. encodes_alone enc ch (lvl + 2)) chs"
proof (induction chs arbitrary: enc com1)
  case Nil
  show ?case by simp
next
  case (Cons ch rest)
  let ?E = "enc_write bufWrite enc [com1]"
  from Cons.prems obtain r where f: "format bufWrite ?E ch (lvl + 2) = Some r"
    and l: "format_array bufWrite (snd r) rest lvl '', '' = Some e"
    by (auto simp: format_array_Cons split: option.splits)
  from encodes_aloneI [OF f] have a: "encodes_alone enc ch (lvl + 2)"
    by (simp add: enc_write_buf)
  from format_buf [OF f] have "snd r = enc\<lparr>w := w enc @ com1 @ emitted enc ch (lvl + 2)\<rparr>"
    by (simp add: enc_write_buf)
  with Cons.IH [OF l] have "list_all (\<lambda>ch. encodes_alone enc ch (lvl + 2)) rest" by simp
  with a show ?case by simp
qed

definition child_level :: "Node list \<Rightarrow> nat \<Rightarrow> nat" where
  "child_level chs lvl = (if length chs = 1 then lvl + 1 else lvl + 2)"

lemma format_value_alone:
  assumes "format_value bufWrite enc chs lvl = Some e"
  shows "list_all (\<lambda>ch. encodes_alone enc ch (child_level chs lvl)) chs"
proof (cases "1 < length chs")
  case True
  with assms obtain e0 where a: "format_array bufWrite (enc_write bufWrite enc [''['']) chs lvl [] = Some e0"
    by (auto simp: format_value_def split: option.splits)
  from format_array_alone [OF a] True show ?thesis
    by (simp add: enc_write_buf child_level_def)
next
  case False
  with assms obtain ch rest r where c: "chs = ch # rest"
    and f: "format bufWrite enc ch (lvl + 1) = Some r"
    by (auto simp: format_value_def split: list.splits)
  from False c have "rest = []" by simp
  with c encodes_aloneI [OF f] show ?thesis by (simp add: child_level_def)
qed

lemma format_labels_alone:
  "format_labels bufWrite enc n lvl sl com = Some e \<Longrightarrow>
     list_all (\<lambda>l. list_all (\<lambda>ch. encodes_alone enc ch (child_level (lookup (Children n) l) lvl))
        (lookup (Children n) l)) sl"
proof (induction sl arbitrary: enc com)
  case Nil
  show ?case by simp
next
  case (Cons label rest)
  let ?E = "open_entry bufWrite enc lvl label com"
  from Cons.prems obtain e1
    where v: "format_value bufWrite ?E (lookup (Children n) label) lvl = Some e1"
      and l: "format_labels bufWrite e1 n lvl rest (separator e1) = Some e"
    by (auto simp: format_labels_Cons split: option.splits)
  from format_value_alone [OF v]
  have a: "list_all (\<lambda>ch. encodes_alone enc ch (child_level (lookup (Children n) label) lvl))
      (lookup (Children n) label)"
    by (simp add: open_entry_buf)
  from format_value_buf [OF v] have "e1 = enc\<lparr>w := w enc @ com @ entry_text enc n lvl label\<rparr>"
    by (simp add: open_entry_buf entry_text_def)
  with Cons.IH [OF l] a show ?case by simp
qed

section \<open>Fresh encoders\<close>







section \<open>Facts about the decoder\<close>

lemma DecodeRuneInString_ascii:
  assumes "b < CHR 0x80"
  shows "DecodeRuneInString (b # t) = (of_char b, 1)"
proof -
  from assms have "(of_char b :: nat) < 0x80" by (simp add: less_char_def)
  then show ?thesis
    by (simp add: DecodeRuneInString_def first_def utf8_as_def utf8_xx_def)
qed

text \<open>The decoder with the class of the leading byte fixed.\<close>

lemma DecodeRuneInString_single:
  assumes "s \<noteq> []" and "utf8_as \<le> first (of_char (s ! 0))"
  shows "DecodeRuneInString s =
    ((if first (of_char (s ! 0)) = utf8_xx then RuneError else of_char (s ! 0)), 1)"
proof -
  from assms(1) have "\<not> length s < 1" by (cases s) simp_all
  with assms(2) show ?thesis by (simp add: DecodeRuneInString_def Let_def)
qed

lemma first_multi:
  assumes "\<not> utf8_as \<le> first b"
  shows "first b \<in> {0x02, 0x13, 0x03, 0x23, 0x34, 0x04, 0x44}"
  using first_cases [of b] assms by (auto simp: utf8_as_def utf8_xx_def)

lemma DecodeRuneInString_valid_width:
  assumes "s \<noteq> []" and "\<not> utf8_as \<le> first (of_char (s ! 0))"
    and "DecodeRuneInString s = (c, sz)" and "\<not> (c = RuneError \<and> sz = 1)"
  shows "sz = first (of_char (s ! 0)) AND 7 \<and> sz \<le> length s \<and> 2 \<le> sz"
proof -
  have "first (of_char (s ! 0)) = v \<Longrightarrow> v \<in> {0x02, 0x13, 0x03, 0x23, 0x34, 0x04, 0x44} \<Longrightarrow> ?thesis" for v
    using assms(1,3,4)
    by (auto simp add: DecodeRuneInString_def Let_def utf8_as_def utf8_xx_def split: if_splits)
  with first_multi [OF assms(2)] show ?thesis by blast
qed


lemma DecodeRuneInString_cong:
  assumes "\<not> utf8_as \<le> first (of_char (s ! 0))"
    and "first (of_char (s ! 0)) AND 7 \<le> length s"
    and "first (of_char (s ! 0)) AND 7 \<le> length s'"
    and "\<And>k. k < first (of_char (s ! 0)) AND 7 \<Longrightarrow> s' ! k = s ! k"
  shows "DecodeRuneInString s' = DecodeRuneInString s"
proof -
  have "first (of_char (s ! 0)) = v \<Longrightarrow> v \<in> {0x02, 0x13, 0x03, 0x23, 0x34, 0x04, 0x44} \<Longrightarrow> ?thesis" for v
  proof -
    assume v: "first (of_char (s ! 0)) = v" and m: "v \<in> {0x02, 0x13, 0x03, 0x23, 0x34, 0x04, 0x44}"
    from m have two: "2 \<le> v AND 7" by auto
    with assms(4) v have e0: "s' ! 0 = s ! 0" and e1: "s' ! 1 = s ! 1" by simp_all
    from assms(4) v have e2: "2 < v AND 7 \<Longrightarrow> s' ! 2 = s ! 2"
      and e3: "3 < v AND 7 \<Longrightarrow> s' ! 3 = s ! 3" by simp_all
    from two assms(2,3) v have "2 \<le> length s" "2 \<le> length s'" by simp_all
    with assms(2,3) v have l: "\<not> length s < 1" "\<not> length s' < 1"
      "\<not> length s < v AND 7" "\<not> length s' < v AND 7" by auto
    show ?thesis
      unfolding DecodeRuneInString_def [of s] DecodeRuneInString_def [of s'] Let_def e0 e1 v
      using m e2 e3 l by (auto simp: utf8_as_def)
  qed
  with first_multi [OF assms(1)] show ?thesis by blast
qed

lemma DecodeRuneInString_stable:
  assumes "s \<noteq> []" and "DecodeRuneInString s = (c, sz)" and "\<not> (c = RuneError \<and> sz = 1)"
  shows "DecodeRuneInString (take sz s @ t) = (c, sz)"
proof (cases "utf8_as \<le> first (of_char (s ! 0))")
  case True
  from DecodeRuneInString_width [OF assms(1)] assms(2) have sz: "1 \<le> sz" "sz \<le> length s"
    by simp_all
  then have ne: "take sz s @ t \<noteq> []" and z: "(take sz s @ t) ! 0 = s ! 0"
    using assms(1) by (auto simp: nth_append)
  from DecodeRuneInString_single [OF ne] True z DecodeRuneInString_single [OF assms(1) True] assms(2)
  show ?thesis by simp
next
  case False
  from DecodeRuneInString_valid_width [OF assms(1) False assms(2,3)]
  have sz: "sz = first (of_char (s ! 0)) AND 7" "sz \<le> length s" "2 \<le> sz" by simp_all
  have "DecodeRuneInString (take sz s @ t) = DecodeRuneInString s"
  proof (rule DecodeRuneInString_cong [OF False])
    from sz show "first (of_char (s ! 0)) AND 7 \<le> length s" by simp
    from sz show "first (of_char (s ! 0)) AND 7 \<le> length (take sz s @ t)" by simp
    fix k assume "k < first (of_char (s ! 0)) AND 7"
    with sz show "(take sz s @ t) ! k = s ! k" by (simp add: nth_append)
  qed
  with assms(2) show ?thesis by simp
qed

section \<open>The sanitiser as a mapping of characters\<close>

text \<open>
  The rule of the sanitiser as the spec words it, to compare with the loop.  \<open>units\<close> cuts
  a string into its encoding units, from left to right, as Go's \<open>range\<close> over a string
  does: each unit is a code point with the bytes that encode it, or a malformed unit,
  one byte that decodes to \<open>RuneError\<close>.  \<open>escape_unit\<close> is the mapping of one unit:
  a malformed unit becomes the escape of U+FFFD (a backslash and \<open>ufffd\<close>); a byte below
  \<open>0x20\<close>, a backslash, a double quote, \<open><\<close>, \<open>>\<close> or \<open>&\<close> is escaped by \<open>escape_byte\<close>;
  the code points U+2028 and U+2029 become a backslash and \<open>u2028\<close> or \<open>u2029\<close>; every
  other unit is copied.  \<open>hex_digit\<close> is the lowercase hexadecimal digit of a nibble.
\<close>

function units :: "string \<Rightarrow> (nat \<times> string) list" where
  "units s =
     (if s = [] then []
      else let d = DecodeRuneInString s in (fst d, take (snd d) s) # units (drop (snd d) s))"
  by pat_completeness auto
termination
proof (relation "measure length", goal_cases)
  case 1
  show ?case by simp
next
  case (2 s d)
  with DecodeRuneInString_width [of s] show ?case by simp
qed

declare units.simps [simp del]

definition malformed :: "nat \<times> string \<Rightarrow> bool" where
  "malformed u = (fst u = RuneError \<and> length (snd u) = 1)"

definition hex_digit :: "nat \<Rightarrow> char" where
  "hex_digit k = (if k < 10 then char_of (48 + k) else char_of (87 + k))"

definition escaped_byte :: "char \<Rightarrow> bool" where
  "escaped_byte b =
     (b < CHR 0x20 \<or> b = bslash \<or> b = dquote \<or> b = CHR ''<'' \<or> b = CHR ''>'' \<or> b = CHR ''&'')"

definition escape_byte :: "char \<Rightarrow> string" where
  "escape_byte b =
     (if b = bslash \<or> b = dquote then [bslash, b]
      else if b = newline then [bslash, CHR ''n'']
      else if b = creturn then [bslash, CHR ''r'']
      else if b = tabchar then [bslash, CHR ''t'']
      else [bslash] @ ''u00'' @ [hex_digit (of_char b div 16), hex_digit (of_char b mod 16)])"

definition escape_unit :: "nat \<times> string \<Rightarrow> string" where
  "escape_unit u =
     (if malformed u then [bslash] @ ''ufffd''
      else if length (snd u) = 1 \<and> escaped_byte (hd (snd u)) then escape_byte (hd (snd u))
      else if fst u = 0x2028 then [bslash] @ ''u2028''
      else if fst u = 0x2029 then [bslash] @ ''u2029''
      else snd u)"

definition Sanitize :: "string \<Rightarrow> string" where
  "Sanitize s = [dquote] @ concat (map escape_unit (units s)) @ [dquote]"

lemma hex_nth: "k < 16 \<Longrightarrow> hex ! k = hex_digit k"
proof -
  have "\<forall>k \<in> set [0..<16]. hex ! k = hex_digit k"
    by code_simp
  then show "k < 16 \<Longrightarrow> hex ! k = hex_digit k" by simp
qed

lemma ascii_nibbles:
  assumes "b < RuneSelf"
  shows "hex ! drop_bit 4 (of_char b :: nat) = hex_digit (of_char b div 16)"
    and "hex ! ((of_char b :: nat) AND 0xF) = hex_digit (of_char b mod 16)"
proof -
  from assms have b: "(of_char b :: nat) < 128" by (simp add: RuneSelf_def less_char_def)
  have d: "drop_bit 4 (of_char b :: nat) = of_char b div 16" by (simp add: drop_bit_eq_div)
  have "(of_char b :: nat) AND mask 4 = of_char b mod 2 ^ 4"
    by (simp only: take_bit_eq_mask [symmetric] take_bit_eq_mod)
  then have m: "(of_char b :: nat) AND 0xF = of_char b mod 16" by (simp add: mask_eq_exp_minus_1)
  from b have "(of_char b :: nat) div 16 < 16" by simp
  then show "hex ! drop_bit 4 (of_char b :: nat) = hex_digit (of_char b div 16)"
    by (simp add: d hex_nth)
  show "hex ! ((of_char b :: nat) AND 0xF) = hex_digit (of_char b mod 16)"
    by (simp add: m hex_nth)
qed

text \<open>One step of the loop, case by case.\<close>

lemma loop_done: "\<not> i < length s \<Longrightarrow> sanitise_loop s start i buf = (start, buf)"
  by (subst sanitise_loop.simps) simp

lemma loop_pass:
  assumes "i < length s" and "s ! i < RuneSelf" and "\<not> escaped_byte (s ! i)"
  shows "sanitise_loop s start i buf = sanitise_loop s start (i + 1) buf"
  using assms by (subst sanitise_loop.simps) (auto simp: escaped_byte_def Let_def)

lemma slice_empty: "\<not> start < i \<Longrightarrow> slice s start i = []"
  by (simp add: slice_def)

lemma loop_escape:
  assumes "i < length s" and "s ! i < RuneSelf" and "escaped_byte (s ! i)"
  shows "sanitise_loop s start i buf
    = sanitise_loop s (i + 1) (i + 1) (buf @ slice s start i @ escape_byte (s ! i))"
proof -
  have "(if start < i then buf @ slice s start i else buf) = buf @ slice s start i"
    by (simp add: slice_empty)
  with assms show ?thesis
    by (subst sanitise_loop.simps)
      (auto simp: escaped_byte_def escape_byte_def Let_def ascii_nibbles)
qed

lemma loop_malformed:
  assumes "i < length s" and "\<not> s ! i < RuneSelf"
    and "DecodeRuneInString (drop i s) = (RuneError, 1)"
  shows "sanitise_loop s start i buf
    = sanitise_loop s (i + 1) (i + 1) (buf @ slice s start i @ [bslash] @ ''ufffd'')"
proof -
  have "(if start < i then buf @ slice s start i else buf) = buf @ slice s start i"
    by (simp add: slice_empty)
  with assms show ?thesis
    by (subst sanitise_loop.simps) (simp add: Let_def)
qed

lemma loop_separator:
  assumes "i < length s" and "\<not> s ! i < RuneSelf"
    and "DecodeRuneInString (drop i s) = (c, sz)" and "c = 0x2028 \<or> c = 0x2029"
  shows "sanitise_loop s start i buf
    = sanitise_loop s (i + sz) (i + sz)
        (buf @ slice s start i @ (if c = 0x2028 then [bslash] @ ''u2028'' else [bslash] @ ''u2029''))"
proof -
  have "(if start < i then buf @ slice s start i else buf) = buf @ slice s start i"
    by (simp add: slice_empty)
  moreover from assms(4) have "\<not> (c = RuneError \<and> sz = 1)" by (auto simp: RuneError_def)
  moreover have "hex ! ((0x2028 :: nat) AND 0xF) = CHR ''8''" "hex ! ((0x2029 :: nat) AND 0xF) = CHR ''9''"
    by (simp_all add: hex_def)
  ultimately show ?thesis using assms
    by (subst sanitise_loop.simps) (auto simp add: Let_def)
qed

lemma loop_multi:
  assumes "i < length s" and "\<not> s ! i < RuneSelf"
    and "DecodeRuneInString (drop i s) = (c, sz)" and "\<not> (c = RuneError \<and> sz = 1)"
    and "c \<noteq> 0x2028" and "c \<noteq> 0x2029"
  shows "sanitise_loop s start i buf = sanitise_loop s start (i + sz) buf"
  using assms by (subst sanitise_loop.simps) (auto simp add: Let_def)

definition escaped_text :: "string \<Rightarrow> string" where
  "escaped_text s = concat (map escape_unit (units s))"

lemma escaped_text_Nil [simp]: "escaped_text [] = []"
  by (simp add: escaped_text_def units.simps)

lemma not_escaped_high: "\<not> b < RuneSelf \<Longrightarrow> \<not> escaped_byte b"
  by (auto simp: RuneSelf_def escaped_byte_def less_char_def)

lemma escaped_text_ascii:
  assumes "b < RuneSelf"
  shows "escaped_text (b # t) = (if escaped_byte b then escape_byte b else [b]) @ escaped_text t"
proof -
  from assms have lt: "b < CHR 0x80" by (simp add: RuneSelf_def)
  then have v: "(of_char b :: nat) < 128" by (simp add: less_char_def)
  from DecodeRuneInString_ascii [OF lt]
  have u: "units (b # t) = (of_char b, [b]) # units t"
    by (subst units.simps) simp
  from v have "escape_unit (of_char b, [b]) = (if escaped_byte b then escape_byte b else [b])"
    by (auto simp: escape_unit_def malformed_def RuneError_def)
  with u show ?thesis by (simp add: escaped_text_def)
qed

lemma escape_unit_high:
  assumes "length t = sz" and "\<not> escaped_byte (hd t)"
  shows "escape_unit (c, t) =
     (if c = RuneError \<and> sz = 1 then [bslash] @ ''ufffd''
      else if c = 0x2028 then [bslash] @ ''u2028''
      else if c = 0x2029 then [bslash] @ ''u2029''
      else t)"
  using assms by (auto simp: escape_unit_def malformed_def)

lemma escaped_text_multi:
  assumes "s \<noteq> []" and "\<not> hd s < RuneSelf" and "DecodeRuneInString s = (c, sz)"
  shows "escaped_text s =
     (if c = RuneError \<and> sz = 1 then [bslash] @ ''ufffd''
      else if c = 0x2028 then [bslash] @ ''u2028''
      else if c = 0x2029 then [bslash] @ ''u2029''
      else take sz s) @ escaped_text (drop sz s)"
proof -
  from DecodeRuneInString_width [OF assms(1)] assms(3) have sz: "1 \<le> sz" "sz \<le> length s"
    by simp_all
  then have l: "length (take sz s) = sz" by simp
  from sz assms(1) have h: "hd (take sz s) = hd s" by (cases s) (auto simp: take_Suc_conv_app_nth)
  from assms(1,3) have u: "units s = (c, take sz s) # units (drop sz s)"
    by (subst units.simps) simp
  have "escape_unit (c, take sz s) =
     (if c = RuneError \<and> sz = 1 then [bslash] @ ''ufffd''
      else if c = 0x2028 then [bslash] @ ''u2028''
      else if c = 0x2029 then [bslash] @ ''u2029''
      else take sz s)"
    using not_escaped_high [OF assms(2)] by (intro escape_unit_high l) (simp add: h)
  with u show ?thesis by (simp add: escaped_text_def)
qed

lemma slice_append:
  assumes "start \<le> i" and "i + k \<le> length s"
  shows "slice s start (i + k) = slice s start i @ take k (drop i s)"
proof -
  from assms have "drop start s = take (i - start) (drop start s) @ drop i s"
    by (metis add_diff_cancel_left' append_take_drop_id drop_drop le_Suc_ex add.commute)
  moreover from assms have "length (take (i - start) (drop start s)) = i - start" by simp
  moreover from assms have "i + k - start = (i - start) + k" by simp
  ultimately show ?thesis
    unfolding slice_def by (metis append_eq_conv_conj take_add drop_drop add.commute le_add_diff_inverse assms(1))
qed

lemma loop_correct:
  assumes "start \<le> i" and "i \<le> length s"
    and "escaped_text (drop start s) = slice s start i @ escaped_text (drop i s)"
  shows "(let r = sanitise_loop s start i buf
          in if fst r < length s then snd r @ drop (fst r) s else snd r)
     = buf @ escaped_text (drop start s)"
  using assms
proof (induction "length s - i" arbitrary: start i buf rule: less_induct)
  case less
  note inv = less.prems(3)
  show ?case
  proof (cases "i < length s")
    case False
    with less.prems have i: "i = length s" by simp
    with inv less.prems(1) have "escaped_text (drop start s) = drop start s"
      by (simp add: slice_def)
    with False show ?thesis by (auto simp: loop_done Let_def)
  next
    case True
    then have d: "drop i s = s ! i # drop (i + 1) s" by (simp add: Cons_nth_drop_Suc)
    from True have one: "i + 1 \<le> length s" by simp
    from slice_append [OF less.prems(1) one] True
    have snoc: "slice s start (i + 1) = slice s start i @ [s ! i]"
      by (simp add: take_Suc_conv_app_nth d)
    have nil: "slice s j j = []" for j by (simp add: slice_def)
    show ?thesis
    proof (cases "s ! i < RuneSelf")
      case True
      note ascii = this
      show ?thesis
      proof (cases "escaped_byte (s ! i)")
        case False
        from inv d ascii False snoc
        have inv': "escaped_text (drop start s) = slice s start (i + 1) @ escaped_text (drop (i + 1) s)"
          by (simp add: escaped_text_ascii)
        have "length s - (i + 1) < length s - i" using \<open>i < length s\<close> by simp
        from less.hyps [OF this _ one inv', of buf] less.prems(1)
        show ?thesis by (simp add: loop_pass [OF \<open>i < length s\<close> ascii False])
      next
        case True
        let ?buf = "buf @ slice s start i @ escape_byte (s ! i)"
        have inv': "escaped_text (drop (i + 1) s) = slice s (i + 1) (i + 1) @ escaped_text (drop (i + 1) s)"
          by (simp add: nil)
        have "length s - (i + 1) < length s - i" using \<open>i < length s\<close> by simp
        from less.hyps [OF this _ one inv', of ?buf]
        have "(let r = sanitise_loop s (i + 1) (i + 1) ?buf
               in if fst r < length s then snd r @ drop (fst r) s else snd r)
          = ?buf @ escaped_text (drop (i + 1) s)" by simp
        moreover from inv d ascii True
        have "escaped_text (drop start s) = slice s start i @ escape_byte (s ! i) @ escaped_text (drop (i + 1) s)"
          by (simp add: escaped_text_ascii)
        ultimately show ?thesis
          by (simp add: loop_escape [OF \<open>i < length s\<close> ascii True])
      qed
    next
      case False
      note high = this
      obtain c sz where dec: "DecodeRuneInString (drop i s) = (c, sz)"
        by (cases "DecodeRuneInString (drop i s)")
      from \<open>i < length s\<close> have ne: "drop i s \<noteq> []" by simp
      from DecodeRuneInString_width [OF ne] dec have sz: "1 \<le> sz" "sz \<le> length s - i"
        by simp_all
      with \<open>i < length s\<close> have le: "i + sz \<le> length s" and lt: "length s - (i + sz) < length s - i"
        by simp_all
      from d high have hd: "\<not> hd (drop i s) < RuneSelf" by simp
      have dd: "drop sz (drop i s) = drop (i + sz) s" by (simp add: add.commute)
      note et = escaped_text_multi [OF ne hd dec, unfolded dd]
      consider (bad) "c = RuneError \<and> sz = 1" | (sep) "c = 0x2028 \<or> c = 0x2029"
        | (plain) "\<not> (c = RuneError \<and> sz = 1)" "c \<noteq> 0x2028" "c \<noteq> 0x2029"
        by blast
      then show ?thesis
      proof cases
        case bad
        let ?buf = "buf @ slice s start i @ [bslash] @ ''ufffd''"
        have inv': "escaped_text (drop (i + sz) s) = slice s (i + sz) (i + sz) @ escaped_text (drop (i + sz) s)"
          by (simp add: nil)
        from less.hyps [OF lt _ le inv', of ?buf]
        have "(let r = sanitise_loop s (i + sz) (i + sz) ?buf
               in if fst r < length s then snd r @ drop (fst r) s else snd r)
          = ?buf @ escaped_text (drop (i + sz) s)" by simp
        moreover from inv et bad dd
        have "escaped_text (drop start s) = slice s start i @ [bslash] @ ''ufffd'' @ escaped_text (drop (i + sz) s)"
          by simp
        moreover from dec bad have "DecodeRuneInString (drop i s) = (RuneError, 1)" by simp
        note loop_malformed [OF \<open>i < length s\<close> high this, of start buf]
        ultimately show ?thesis using bad by simp
      next
        case sep
        let ?esc = "if c = 0x2028 then [bslash] @ ''u2028'' else [bslash] @ ''u2029''"
        let ?buf = "buf @ slice s start i @ ?esc"
        from sep have nb: "\<not> (c = RuneError \<and> sz = 1)" by (auto simp: RuneError_def)
        have inv': "escaped_text (drop (i + sz) s) = slice s (i + sz) (i + sz) @ escaped_text (drop (i + sz) s)"
          by (simp add: nil)
        from less.hyps [OF lt _ le inv', of ?buf]
        have "(let r = sanitise_loop s (i + sz) (i + sz) ?buf
               in if fst r < length s then snd r @ drop (fst r) s else snd r)
          = ?buf @ escaped_text (drop (i + sz) s)" by simp
        moreover from inv et sep nb dd
        have "escaped_text (drop start s) = slice s start i @ ?esc @ escaped_text (drop (i + sz) s)"
          by auto
        moreover note loop_separator [OF \<open>i < length s\<close> high dec sep, of start buf]
        ultimately show ?thesis by simp
      next
        case plain
        from plain et
        have "escaped_text (drop i s) = take sz (drop i s) @ escaped_text (drop (i + sz) s)"
          by auto
        with inv
        have "escaped_text (drop start s) = slice s start i @ take sz (drop i s) @ escaped_text (drop (i + sz) s)"
          by simp
        with slice_append [OF less.prems(1) le]
        have inv': "escaped_text (drop start s) = slice s start (i + sz) @ escaped_text (drop (i + sz) s)"
          by simp
        from less.prems(1) have "start \<le> i + sz" by simp
        from less.hyps [OF lt this le inv', of buf]
        show ?thesis by (simp add: loop_multi [OF \<open>i < length s\<close> high dec plain])
      qed
    qed
  qed
qed

lemma sanitiseString_escaped_text:
  "sanitiseString s = [dquote] @ escaped_text s @ [dquote]"
proof -
  have "escaped_text (drop 0 s) = slice s 0 0 @ escaped_text (drop 0 s)"
    by (simp add: slice_def)
  from loop_correct [OF _ _ this, of "[dquote]"]
  show ?thesis
    by (cases "sanitise_loop s 0 0 [dquote]") (auto simp: sanitiseString_def Let_def)
qed

section \<open>Strings with nothing to escape\<close>

text \<open>
  \<open>escape_free s\<close>: no code point of \<open>s\<close> is a control character (below \<open>0x20\<close>), a
  double quote, a backslash, \<open><\<close>, \<open>>\<close>, \<open>&\<close>, U+2028 or U+2029.  \<open>valid_utf8 s\<close>: no
  unit of \<open>s\<close> is malformed.
\<close>

definition valid_utf8 :: "string \<Rightarrow> bool" where
  "valid_utf8 s = list_all (\<lambda>u. \<not> malformed u) (units s)"

definition escape_free :: "string \<Rightarrow> bool" where
  "escape_free s =
     list_all (\<lambda>u. 0x20 \<le> fst u \<and> fst u \<noteq> 0x22 \<and> fst u \<noteq> 0x5C \<and> fst u \<noteq> 0x3C \<and> fst u \<noteq> 0x3E
        \<and> fst u \<noteq> 0x26 \<and> fst u \<noteq> 0x2028 \<and> fst u \<noteq> 0x2029) (units s)"

lemma units_Nil [simp]: "units [] = []"
  by (simp add: units.simps)

lemma units_ascii:
  assumes "b < RuneSelf"
  shows "units (b # t) = (of_char b, [b]) # units t"
proof -
  from assms have "b < CHR 0x80" by (simp add: RuneSelf_def)
  from DecodeRuneInString_ascii [OF this] show ?thesis
    by (subst units.simps) simp
qed

lemma units_decode:
  assumes "s \<noteq> []" and "DecodeRuneInString s = (c, sz)"
  shows "units s = (c, take sz s) # units (drop sz s)"
  using assms by (subst units.simps) simp

lemma escaped_byte_code:
  assumes "escaped_byte b"
  shows "(of_char b :: nat) < 0x20 \<or> (of_char b :: nat) \<in> {0x22, 0x5C, 0x3C, 0x3E, 0x26}"
  using assms by (auto simp: escaped_byte_def less_char_def)

lemma escaped_text_plain:
  "valid_utf8 s \<Longrightarrow> escape_free s \<Longrightarrow> escaped_text s = s"
proof (induction "length s" arbitrary: s rule: less_induct)
  case less
  show ?case
  proof (cases s)
    case Nil
    then show ?thesis by simp
  next
    case (Cons b t)
    show ?thesis
    proof (cases "b < RuneSelf")
      case True
      from less.prems Cons units_ascii [OF True, of t]
      have v: "valid_utf8 t" and f: "escape_free t"
        and c: "0x20 \<le> (of_char b :: nat)" "(of_char b :: nat) \<notin> {0x22, 0x5C, 0x3C, 0x3E, 0x26}"
        by (simp_all add: valid_utf8_def escape_free_def)
      from c escaped_byte_code [of b] have "\<not> escaped_byte b" by auto
      moreover from Cons less.hyps [OF _ v f] have "escaped_text t = t" by simp
      ultimately show ?thesis using Cons by (simp add: escaped_text_ascii [OF True])
    next
      case False
      obtain c sz where dec: "DecodeRuneInString s = (c, sz)"
        by (cases "DecodeRuneInString s")
      from Cons have ne: "s \<noteq> []" by simp
      from DecodeRuneInString_width [OF ne] dec have sz: "1 \<le> sz" "sz \<le> length s" by simp_all
      then have l: "length (take sz s) = sz" by simp
      from less.prems units_decode [OF ne dec]
      have v: "valid_utf8 (drop sz s)" and f: "escape_free (drop sz s)"
        and m: "\<not> malformed (c, take sz s)" and c: "c \<noteq> 0x2028" "c \<noteq> 0x2029"
        by (simp_all add: valid_utf8_def escape_free_def)
      from m l have nb: "\<not> (c = RuneError \<and> sz = 1)" by (simp add: malformed_def)
      from sz ne have "length (drop sz s) < length s" by (cases s) auto
      from less.hyps [OF this v f] have "escaped_text (drop sz s) = drop sz s" .
      moreover from Cons False have "\<not> hd s < RuneSelf" by simp
      note escaped_text_multi [OF ne this dec]
      ultimately show ?thesis using nb c by auto
    qed
  qed
qed

lemmas decode_defs = DecodeRuneInString_def first_def acceptRanges_def utf8_as_def utf8_xx_def
  RuneError_def locb_def hicb_def maskx_def mask2_def mask3_def mask4_def Let_def push_bit_eq_mult

section \<open>Reading a JSON string literal\<close>

text \<open>
  The syntax of a JSON string (RFC 8259, section 7) as a parser: \<open>json_string_literal\<close>
  accepts a double quote, then characters up to the closing double quote with nothing
  after it, and returns the code points of the string.  A character is an unescaped
  code point from \<open>0x20\<close> up, other than the double quote and the backslash, in valid
  UTF-8; or a backslash followed by a double quote, a backslash or one of \<open>/ b f n r t\<close>;
  or a backslash, \<open>u\<close> and four hexadecimal digits, read as one code unit.
\<close>

definition hex_val :: "char \<Rightarrow> nat option" where
  "hex_val h =
     (if CHR ''0'' \<le> h \<and> h \<le> CHR ''9'' then Some (of_char h - 48)
      else if CHR ''a'' \<le> h \<and> h \<le> CHR ''f'' then Some (of_char h - 87)
      else if CHR ''A'' \<le> h \<and> h \<le> CHR ''F'' then Some (of_char h - 55)
      else None)"

definition hex4 :: "string \<Rightarrow> nat option" where
  "hex4 hs =
     (case map hex_val hs of
        [Some a, Some b, Some c, Some d] \<Rightarrow> Some (((a * 16 + b) * 16 + c) * 16 + d)
      | _ \<Rightarrow> None)"

definition simple_escape :: "char \<Rightarrow> nat option" where
  "simple_escape e =
     (if e = dquote then Some 0x22
      else if e = bslash then Some 0x5C
      else if e = CHR ''/'' then Some 0x2F
      else if e = CHR ''b'' then Some 0x08
      else if e = CHR ''f'' then Some 0x0C
      else if e = CHR ''n'' then Some 0x0A
      else if e = CHR ''r'' then Some 0x0D
      else if e = CHR ''t'' then Some 0x09
      else None)"

function json_chars :: "string \<Rightarrow> nat list option" where
  "json_chars s =
     (if s = [] then None
      else if hd s = dquote then (if tl s = [] then Some [] else None)
      else if hd s = bslash then
        (if tl s = [] then None
         else if hd (tl s) = CHR ''u'' then
           (case hex4 (take 4 (drop 2 s)) of
              None \<Rightarrow> None
            | Some v \<Rightarrow> map_option ((#) v) (json_chars (drop 6 s)))
         else
           (case simple_escape (hd (tl s)) of
              None \<Rightarrow> None
            | Some v \<Rightarrow> map_option ((#) v) (json_chars (drop 2 s))))
      else if hd s < CHR 0x20 then None
      else if hd s < CHR 0x80 then map_option ((#) (of_char (hd s))) (json_chars (tl s))
      else
        let d = DecodeRuneInString s in
        if fst d = RuneError \<and> snd d = 1 then None
        else map_option ((#) (fst d)) (json_chars (drop (snd d) s)))"
  by pat_completeness auto
termination
proof (relation "measure length", goal_cases)
  case 1
  show ?case by simp
next
  case (2 s v)
  then show ?case by (cases s) auto
next
  case (3 s v)
  then show ?case by (cases s) auto
next
  case (4 s)
  then show ?case by (cases s) auto
next
  case (5 s d)
  with DecodeRuneInString_width [of s] show ?case by (cases s) auto
qed

declare json_chars.simps [simp del]

definition json_string_literal :: "string \<Rightarrow> nat list option" where
  "json_string_literal s =
     (case s of [] \<Rightarrow> None | q # rest \<Rightarrow> if q = dquote then json_chars rest else None)"

lemma jc_end: "json_chars [dquote] = Some []"
  by (subst json_chars.simps) simp

lemma jc_plain:
  assumes "CHR 0x20 \<le> b" and "b < CHR 0x80" and "b \<noteq> dquote" and "b \<noteq> bslash"
  shows "json_chars (b # r) = map_option ((#) (of_char b)) (json_chars r)"
  using assms by (subst json_chars.simps) (auto simp: not_less [symmetric])

lemma jc_simple:
  assumes "simple_escape e = Some v" and "e \<noteq> CHR ''u''"
  shows "json_chars (bslash # e # r) = map_option ((#) v) (json_chars r)"
  using assms by (subst json_chars.simps) simp

lemma jc_u:
  assumes "hex4 [h1, h2, h3, h4] = Some v"
  shows "json_chars (bslash # CHR ''u'' # h1 # h2 # h3 # h4 # r) = map_option ((#) v) (json_chars r)"
  using assms by (subst json_chars.simps) simp

lemma high_char:
  assumes "\<not> b < CHR 0x80"
  shows "b \<noteq> dquote" "b \<noteq> bslash" "\<not> b < CHR 0x20"
  using assms by (auto simp: less_char_def)

lemma jc_high:
  assumes "x \<noteq> []" and "\<not> hd x < CHR 0x80" and "DecodeRuneInString x = (c, sz)"
    and "\<not> (c = RuneError \<and> sz = 1)"
  shows "json_chars x = map_option ((#) c) (json_chars (drop sz x))"
  using assms high_char [OF assms(2)] by (subst json_chars.simps) (auto simp: Let_def)

lemma jc_multi:
  assumes "s \<noteq> []" and "\<not> hd s < CHR 0x80" and "DecodeRuneInString s = (c, sz)"
    and "\<not> (c = RuneError \<and> sz = 1)"
  shows "json_chars (take sz s @ r) = map_option ((#) c) (json_chars r)"
proof -
  from DecodeRuneInString_width [OF assms(1)] assms(3) have sz: "1 \<le> sz" "sz \<le> length s"
    by simp_all
  with assms(1) have h: "hd (take sz s @ r) = hd s" and ne: "take sz s @ r \<noteq> []"
    by (cases s; auto)+
  from sz have d: "drop sz (take sz s @ r) = r" by simp
  from DecodeRuneInString_stable [OF assms(1,3,4), of r]
  have dec: "DecodeRuneInString (take sz s @ r) = (c, sz)" .
  from assms(2) h have "\<not> hd (take sz s @ r) < CHR 0x80" by simp
  from jc_high [OF ne this dec assms(4)] show ?thesis by (simp only: d)
qed

lemma hex_val_digit: "k < 16 \<Longrightarrow> hex_val (hex_digit k) = Some k"
proof -
  have "\<forall>k \<in> set [0..<16]. hex_val (hex_digit k) = Some k"
    by code_simp
  then show "k < 16 \<Longrightarrow> hex_val (hex_digit k) = Some k" by simp
qed

lemma hex4_byte:
  assumes "v < 256"
  shows "hex4 [CHR ''0'', CHR ''0'', hex_digit (v div 16), hex_digit (v mod 16)] = Some v"
proof -
  from assms have "v div 16 < 16" "v mod 16 < 16" by simp_all
  then have "hex_val (hex_digit (v div 16)) = Some (v div 16)"
    "hex_val (hex_digit (v mod 16)) = Some (v mod 16)"
    by (simp_all add: hex_val_digit)
  moreover have "hex_val CHR ''0'' = Some 0" by (simp add: hex_val_def)
  ultimately show ?thesis by (simp add: hex4_def)
qed

lemma jc_escape_byte:
  assumes "escaped_byte b"
  shows "json_chars (escape_byte b @ r) = map_option ((#) (of_char b)) (json_chars r)"
proof -
  have v: "(of_char b :: nat) < 256" by simp
  consider "b = bslash" | "b = dquote" | "b = newline" | "b = creturn" | "b = tabchar"
    | "b \<noteq> bslash" "b \<noteq> dquote" "b \<noteq> newline" "b \<noteq> creturn" "b \<noteq> tabchar"
    by blast
  then show ?thesis
  proof cases
    case 6
    then show ?thesis
      by (simp add: escape_byte_def jc_u [OF hex4_byte [OF v]])
  qed (simp_all add: escape_byte_def jc_simple simple_escape_def)
qed

lemma hex4_fffd: "hex4 ''fffd'' = Some 0xFFFD"
  by (simp add: hex4_def hex_val_def)

lemma hex4_2028: "hex4 ''2028'' = Some 0x2028"
  by (simp add: hex4_def hex_val_def)

lemma hex4_2029: "hex4 ''2029'' = Some 0x2029"
  by (simp add: hex4_def hex_val_def)

lemma json_chars_escaped_text:
  "json_chars (escaped_text s @ [dquote]) = Some (map fst (units s))"
proof (induction "length s" arbitrary: s rule: less_induct)
  case less
  show ?case
  proof (cases s)
    case Nil
    then show ?thesis by (simp add: jc_end)
  next
    case (Cons b t)
    show ?thesis
    proof (cases "b < RuneSelf")
      case True
      from Cons less.hyps [of t] have IH: "json_chars (escaped_text t @ [dquote]) = Some (map fst (units t))"
        by simp
      show ?thesis
      proof (cases "escaped_byte b")
        case True
        with IH \<open>b < RuneSelf\<close> Cons show ?thesis
          by (simp add: escaped_text_ascii units_ascii jc_escape_byte)
      next
        case False
        then have "CHR 0x20 \<le> b" "b \<noteq> dquote" "b \<noteq> bslash"
          by (auto simp: escaped_byte_def)
        moreover from \<open>b < RuneSelf\<close> have "b < CHR 0x80" by (simp add: RuneSelf_def)
        ultimately have "json_chars (b # escaped_text t @ [dquote])
            = map_option ((#) (of_char b)) (json_chars (escaped_text t @ [dquote]))"
          by (intro jc_plain)
        with IH False \<open>b < RuneSelf\<close> Cons show ?thesis
          by (simp add: escaped_text_ascii units_ascii)
      qed
    next
      case False
      obtain c sz where dec: "DecodeRuneInString s = (c, sz)"
        by (cases "DecodeRuneInString s")
      from Cons have ne: "s \<noteq> []" by simp
      from DecodeRuneInString_width [OF ne] dec have sz: "1 \<le> sz" "sz \<le> length s" by simp_all
      with ne have "length (drop sz s) < length s" by (cases s) auto
      from less.hyps [OF this]
      have IH: "json_chars (escaped_text (drop sz s) @ [dquote]) = Some (map fst (units (drop sz s)))" .
      from Cons False have hd: "\<not> hd s < RuneSelf" by simp
      then have hd': "\<not> hd s < CHR 0x80" by (simp add: RuneSelf_def)
      note et = escaped_text_multi [OF ne hd dec]
      note u = units_decode [OF ne dec]
      consider (bad) "c = RuneError \<and> sz = 1" | (sep1) "c = 0x2028" | (sep2) "c = 0x2029"
        | (plain) "\<not> (c = RuneError \<and> sz = 1)" "c \<noteq> 0x2028" "c \<noteq> 0x2029"
        by blast
      then show ?thesis
      proof cases
        case bad
        with et have "escaped_text s = [bslash] @ ''ufffd'' @ escaped_text (drop sz s)" by simp
        with IH bad u show ?thesis
          by (simp add: jc_u [OF hex4_fffd [simplified]] RuneError_def)
      next
        case sep1
        with et have "escaped_text s = [bslash] @ ''u2028'' @ escaped_text (drop sz s)"
          by (simp add: RuneError_def)
        with IH sep1 u show ?thesis
          by (simp add: jc_u [OF hex4_2028 [simplified]])
      next
        case sep2
        with et have "escaped_text s = [bslash] @ ''u2029'' @ escaped_text (drop sz s)"
          by (simp add: RuneError_def)
        with IH sep2 u show ?thesis
          by (simp add: jc_u [OF hex4_2029 [simplified]])
      next
        case plain
        with et have "escaped_text s = take sz s @ escaped_text (drop sz s)" by auto
        with IH u jc_multi [OF ne hd' dec plain(1), of "escaped_text (drop sz s) @ [dquote]"]
        show ?thesis by simp
      qed
    qed
  qed
qed

section \<open>The claims about the encoder\<close>

subsection \<open>Write errors\<close>

text \<open>
  C1 (the first write error is returned and stored, and later calls return it without
  writing): the code does not do this.  \<open>write\<close> drops the result of \<open>Write\<close> and \<open>format\<close>
  always returns \<open>nil\<close>, so on a stream where every \<open>Write\<close> fails, \<open>Encode\<close> on a fresh
  encoder returns \<open>nil\<close> after two attempted writes and stores no error; a second call on
  the same encoder attempts two more writes and returns \<open>nil\<close> again.
\<close>

theorem Encode_drops_write_error:
  "Encode failWrite (NewEncoder 0) (Some (Node ''world'' [])) = Some (None, NewEncoder 2)
   \<and> Encode failWrite (NewEncoder 2) (Some (Node ''world'' [])) = Some (None, NewEncoder 4)"
  by (simp add: Encode_def NewEncoder_def format_unfold HasChildren_def enc_write.simps failWrite_def)

subsection \<open>Arrays and single values\<close>

text \<open>
  C2: the object that \<open>format\<close> writes for a container has one entry for each label,
  the key followed by the value of the label.  When the label has exactly one child,
  the value is the text of that child, encoded on its own one level deeper, with no
  brackets.  Otherwise the label has more than one child (no label of a container that
  is encoded is without children), and the value is \<open>[\<close>, the texts of the children, each
  encoded on its own two levels deeper, in the order of the sequence and separated by a
  comma and a space, and \<open>]\<close>: one element for each child.  Each of these texts is what
  \<open>format\<close> writes for the child alone.
\<close>

theorem array_or_bare_value:
  assumes "format bufWrite enc n lvl = Some r" and "HasChildren n"
  shows "w (snd r) = w enc @ open_text enc n lvl
      @ join (separator enc)
          (map (\<lambda>l. key_text enc lvl l @
                 (if length (lookup (Children n) l) = 1
                  then emitted enc (lookup (Children n) l ! 0) (lvl + 1)
                  else ''['' @ join '', '' (map (\<lambda>ch. emitted enc ch (lvl + 2)) (lookup (Children n) l))
                         @ '']''))
             (sorted_labels n))
      @ close_text enc lvl
    \<and> list_all (\<lambda>l. lookup (Children n) l \<noteq> []) (sorted_labels n)
    \<and> list_all (\<lambda>l. list_all (\<lambda>ch. encodes_alone enc ch (child_level (lookup (Children n) l) lvl))
         (lookup (Children n) l)) (sorted_labels n)"
proof -
  from assms obtain e
    where l: "format_labels bufWrite (open_object bufWrite enc n lvl) n lvl (sorted_labels n) [] = Some e"
    by (auto simp: format_unfold split: option.splits)
  from format_labels_nonempty [OF l]
  have ne: "list_all (\<lambda>l. lookup (Children n) l \<noteq> []) (sorted_labels n)" .
  from format_labels_alone [OF l]
  have al: "list_all (\<lambda>l. list_all (\<lambda>ch. encodes_alone enc ch (child_level (lookup (Children n) l) lvl))
         (lookup (Children n) l)) (sorted_labels n)"
    by (simp add: open_object_buf)
  have "entry_text enc n lvl l = key_text enc lvl l @
                 (if length (lookup (Children n) l) = 1
                  then emitted enc (lookup (Children n) l ! 0) (lvl + 1)
                  else ''['' @ join '', '' (map (\<lambda>ch. emitted enc ch (lvl + 2)) (lookup (Children n) l))
                         @ '']'')"
    if "l \<in> set (sorted_labels n)" for l
  proof -
    from ne that have "lookup (Children n) l \<noteq> []" by (simp add: list_all_iff)
    then have "(1 < length (lookup (Children n) l)) = (length (lookup (Children n) l) \<noteq> 1)"
      by (cases "lookup (Children n) l") auto
    then show ?thesis by (simp add: entry_text_def value_text_def elements_text_def)
  qed
  then have "map (entry_text enc n lvl) (sorted_labels n)
     = map (\<lambda>l. key_text enc lvl l @
                 (if length (lookup (Children n) l) = 1
                  then emitted enc (lookup (Children n) l ! 0) (lvl + 1)
                  else ''['' @ join '', '' (map (\<lambda>ch. emitted enc ch (lvl + 2)) (lookup (Children n) l))
                         @ '']'')) (sorted_labels n)"
    by simp
  with format_container_buf [OF assms] ne al show ?thesis by simp
qed

theorem array_or_bare_value_witness:
  "format bufWrite (NewEncoder [])
       (Node [] [(''b'', [Node ''3'' []]), (''a'', [Node ''1'' [], Node ''2'' []])]) 0
     = Some (None, NewEncoder (''{'' @ [dquote] @ ''a'' @ [dquote] @ '': ['' @ [dquote] @ ''1'' @ [dquote]
          @ '', '' @ [dquote] @ ''2'' @ [dquote] @ ''], '' @ [dquote] @ ''b'' @ [dquote] @ '': ''
          @ [dquote] @ ''3'' @ [dquote, newline] @ ''}''))
   \<and> HasChildren (Node [] [(''b'', [Node ''3'' []]), (''a'', [Node ''1'' [], Node ''2'' []])])
   \<and> map (\<lambda>l. key_text (NewEncoder []) 0 l @
           (if length (lookup [(''b'', [Node ''3'' []]), (''a'', [Node ''1'' [], Node ''2'' []])] l) = 1
            then emitted (NewEncoder [])
                   (lookup [(''b'', [Node ''3'' []]), (''a'', [Node ''1'' [], Node ''2'' []])] l ! 0) 1
            else ''['' @ join '', '' (map (\<lambda>ch. emitted (NewEncoder []) ch 2)
                   (lookup [(''b'', [Node ''3'' []]), (''a'', [Node ''1'' [], Node ''2'' []])] l)) @ '']''))
         [''a'', ''b'']
       = [[dquote] @ ''a'' @ [dquote] @ '': ['' @ [dquote] @ ''1'' @ [dquote] @ '', '' @ [dquote] @ ''2''
            @ [dquote] @ '']'',
          [dquote] @ ''b'' @ [dquote] @ '': '' @ [dquote] @ ''3'' @ [dquote]]
   \<and> list_all (\<lambda>l. lookup (Children (Node [] [(''b'', [Node ''3'' []]), (''a'', [Node ''1'' [], Node ''2'' []])])) l \<noteq> [])
         (sorted_labels (Node [] [(''b'', [Node ''3'' []]), (''a'', [Node ''1'' [], Node ''2'' []])]))"
proof -
  let ?cs = "[(''b'', [Node ''3'' []]), (''a'', [Node ''1'' [], Node ''2'' []])]"
  have h: "format bufWrite (NewEncoder []) (Node [] ?cs) 0
     = Some (None, NewEncoder (''{'' @ [dquote] @ ''a'' @ [dquote] @ '': ['' @ [dquote] @ ''1'' @ [dquote]
          @ '', '' @ [dquote] @ ''2'' @ [dquote] @ ''], '' @ [dquote] @ ''b'' @ [dquote] @ '': ''
          @ [dquote] @ ''3'' @ [dquote, newline] @ ''}''))"
    by code_simp
  have c: "HasChildren (Node [] ?cs)" by (simp add: HasChildren_def)
  have m: "map (\<lambda>l. key_text (NewEncoder []) 0 l @
           (if length (lookup ?cs l) = 1
            then emitted (NewEncoder []) (lookup ?cs l ! 0) 1
            else ''['' @ join '', '' (map (\<lambda>ch. emitted (NewEncoder []) ch 2) (lookup ?cs l)) @ '']''))
         [''a'', ''b'']
       = [[dquote] @ ''a'' @ [dquote] @ '': ['' @ [dquote] @ ''1'' @ [dquote] @ '', '' @ [dquote] @ ''2''
            @ [dquote] @ '']'',
          [dquote] @ ''b'' @ [dquote] @ '': '' @ [dquote] @ ''3'' @ [dquote]]"
    by code_simp
  show ?thesis
    using h c m array_or_bare_value [OF h c] by simp
qed

subsection \<open>The order of the keys\<close>

text \<open>
  C3: the object that \<open>format\<close> writes for a container lists its entries in the sorted
  (byte-wise lexicographic) order of the labels, and the result does not depend on the
  order in which the map holds them: any other arrangement \<open>cs'\<close> of the same entries
  gives the same result.  The code calls the sorting function only when there are two
  labels or more; with a single label it skips the call, which changes nothing, the
  sorted sequence of one label being that label (\<open>sorted_labels_sort\<close>).
\<close>

theorem sorted_key_order:
  assumes "format bufWrite enc (Node d cs) lvl = Some r" and "cs \<noteq> []"
    and "distinct (map fst cs)" and "distinct (map fst cs')" and "set cs' = set cs"
  shows "w (snd r) = w enc @ open_text enc (Node d cs) lvl
           @ join (separator enc) (map (entry_text enc (Node d cs) lvl) (sort (map fst cs)))
           @ close_text enc lvl
     \<and> format bufWrite enc (Node d cs') lvl = Some r
     \<and> sorted_labels (Node d cs) = (if 1 < length cs then sort (map fst cs) else map fst cs)"
proof -
  from assms(2) have "HasChildren (Node d cs)" by (simp add: HasChildren_def)
  from format_container_buf [OF assms(1) this]
  have "w (snd r) = w enc @ open_text enc (Node d cs) lvl
           @ join (separator enc) (map (entry_text enc (Node d cs) lvl) (sort (map fst cs)))
           @ close_text enc lvl"
    by (simp add: sorted_labels_sort)
  moreover from format_same_map [OF assms(3,4,5), of bufWrite enc d lvl] assms(1)
  have "format bufWrite enc (Node d cs') lvl = Some r" by simp
  moreover have "sorted_labels (Node d cs) = (if 1 < length cs then sort (map fst cs) else map fst cs)"
    by (simp add: sorted_labels_def)
  ultimately show ?thesis by simp
qed

theorem sorted_key_order_witness:
  "format bufWrite (NewEncoder []) (Node [] [(''foo'', [Node ''bar'' []]), (''-version'', [Node ''0.6'' []])]) 0
     = Some (None, NewEncoder (''{'' @ [dquote] @ ''-version'' @ [dquote] @ '': '' @ [dquote] @ ''0.6''
         @ [dquote] @ '', '' @ [dquote] @ ''foo'' @ [dquote] @ '': '' @ [dquote] @ ''bar''
         @ [dquote, newline] @ ''}''))
   \<and> [(''foo'', [Node ''bar'' []]), (''-version'', [Node ''0.6'' []])] \<noteq> []
   \<and> distinct (map fst [(''foo'', [Node ''bar'' []]), (''-version'', [Node ''0.6'' []])])
   \<and> distinct (map fst [(''-version'', [Node ''0.6'' []]), (''foo'', [Node ''bar'' []])])
   \<and> set [(''-version'', [Node ''0.6'' []]), (''foo'', [Node ''bar'' []])]
       = set [(''foo'', [Node ''bar'' []]), (''-version'', [Node ''0.6'' []])]
   \<and> sort (map fst [(''foo'', [Node ''bar'' []]), (''-version'', [Node ''0.6'' []])])
       = [''-version'', ''foo'']
   \<and> format bufWrite (NewEncoder []) (Node [] [(''-version'', [Node ''0.6'' []]), (''foo'', [Node ''bar'' []])]) 0
     = Some (None, NewEncoder (''{'' @ [dquote] @ ''-version'' @ [dquote] @ '': '' @ [dquote] @ ''0.6''
         @ [dquote] @ '', '' @ [dquote] @ ''foo'' @ [dquote] @ '': '' @ [dquote] @ ''bar''
         @ [dquote, newline] @ ''}''))"
proof -
  let ?cs = "[(''foo'', [Node ''bar'' []]), (''-version'', [Node ''0.6'' []])]"
  let ?cs' = "[(''-version'', [Node ''0.6'' []]), (''foo'', [Node ''bar'' []])]"
  have h: "format bufWrite (NewEncoder []) (Node [] ?cs) 0
     = Some (None, NewEncoder (''{'' @ [dquote] @ ''-version'' @ [dquote] @ '': '' @ [dquote] @ ''0.6''
         @ [dquote] @ '', '' @ [dquote] @ ''foo'' @ [dquote] @ '': '' @ [dquote] @ ''bar''
         @ [dquote, newline] @ ''}''))"
    by code_simp
  have n: "?cs \<noteq> []" by simp
  have d: "distinct (map fst ?cs)" by simp
  have d': "distinct (map fst ?cs')" by simp
  have s: "set ?cs' = set ?cs" by auto
  have o: "sort (map fst ?cs) = [''-version'', ''foo'']" by simp
  show ?thesis
    using h n d d' s o sorted_key_order [OF h n d d' s] by simp
qed

subsection \<open>The content key\<close>

text \<open>
  C7 (the content entry comes first and is followed by a comma and a space in compact
  mode, by a comma and a newline in indent mode): in indent mode the code does not do
  this.  Line 92 writes the comma and the space whatever the mode and line 94 adds the
  newline, so the content entry is followed by a comma, a space and a newline, while the
  entries of the labels, in the same object, are separated by a comma and a newline
  (lines 133 to 137).  In compact mode the output is as the claim says.
\<close>

theorem content_separator_indent_mode:
  "Encode bufWrite (SetContentPrefix (SetIndent (NewEncoder []) ''  '') ''#'')
       (Some (Node ''text'' [(''x'', [Node ''1'' []]), (''y'', [Node ''2'' []])]))
     = Some (None, SetContentPrefix (SetIndent (NewEncoder
         (''{'' @ [newline]
            @ ''  '' @ [dquote] @ ''#content'' @ [dquote] @ '': '' @ [dquote] @ ''text'' @ [dquote]
            @ '', '' @ [newline]
            @ ''  '' @ [dquote] @ ''x'' @ [dquote] @ '': '' @ [dquote] @ ''1'' @ [dquote]
            @ '','' @ [newline]
            @ ''  '' @ [dquote] @ ''y'' @ [dquote] @ '': '' @ [dquote] @ ''2'' @ [dquote]
            @ [newline] @ ''}'' @ [newline])) ''  '') ''#'')
   \<and> Encode bufWrite (SetContentPrefix (NewEncoder []) ''#'')
       (Some (Node ''text'' [(''x'', [Node ''1'' []]), (''y'', [Node ''2'' []])]))
     = Some (None, SetContentPrefix (NewEncoder
         (''{'' @ [dquote] @ ''#content'' @ [dquote] @ '': '' @ [dquote] @ ''text'' @ [dquote]
            @ '', '' @ [dquote] @ ''x'' @ [dquote] @ '': '' @ [dquote] @ ''1'' @ [dquote]
            @ '', '' @ [dquote] @ ''y'' @ [dquote] @ '': '' @ [dquote] @ ''2'' @ [dquote]
            @ [newline] @ ''}'' @ [newline])) ''#'')"
  by code_simp

subsection \<open>The trailing newline\<close>




subsection \<open>Prefixes given to one call\<close>

text \<open>
  The prefixes that \<open>EncodeWithCustomPrefixes\<close> is given stay in the encoder: after a call
  with the prefixes \<open>#\<close> and \<open>@\<close> on an encoder configured with \<open>c_\<close> and \<open>a_\<close>, the
  encoder holds \<open>#\<close> and \<open>@\<close>.
\<close>

theorem EncodeWithCustomPrefixes_counterexample:
  "EncodeWithCustomPrefixes bufWrite
       \<lparr>w = [], err = None, contentPrefix = ''c_'', attributePrefix = ''a_'', indent = False,
        indentText = []\<rparr>
       (Some (Node ''x'' [])) ''#'' ''@''
     = Some (None, \<lparr>w = [dquote] @ ''x'' @ [dquote, newline], err = None, contentPrefix = ''#'',
                    attributePrefix = ''@'', indent = False, indentText = []\<rparr>)
   \<and> ''#'' \<noteq> ''c_'' \<and> ''@'' \<noteq> ''a_''"
  by code_simp

text \<open>
  C9, amended: \<open>EncodeWithCustomPrefixes\<close> assigns its two prefixes to the encoder and
  calls \<open>Encode\<close>; when the call returns, the encoder's content and attribute prefixes
  are the ones given to the call (they are not restored), and \<open>indent\<close> and \<open>indentText\<close>
  are unchanged.
\<close>

theorem EncodeWithCustomPrefixes_stores_prefixes:
  assumes "EncodeWithCustomPrefixes Wr enc root cp ap = Some (r, enc')"
  shows "contentPrefix enc' = cp \<and> attributePrefix enc' = ap
    \<and> indent enc' = indent enc \<and> indentText enc' = indentText enc
    \<and> Encode Wr (enc\<lparr>contentPrefix := cp, attributePrefix := ap\<rparr>) root = Some (r, enc')"
proof -
  from assms have e: "Encode Wr (enc\<lparr>contentPrefix := cp, attributePrefix := ap\<rparr>) root = Some (r, enc')"
    by (simp add: EncodeWithCustomPrefixes_def Let_def)
  from Encode_frame [OF e] have "cfg enc' = cfg (enc\<lparr>contentPrefix := cp, attributePrefix := ap\<rparr>)"
    by simp
  with e show ?thesis by (simp add: cfg_def)
qed

theorem EncodeWithCustomPrefixes_stores_prefixes_witness:
  "EncodeWithCustomPrefixes bufWrite (NewEncoder []) (Some (Node ''x'' [])) ''#'' ''@''
     = Some (None, \<lparr>w = [dquote] @ ''x'' @ [dquote, newline], err = None, contentPrefix = ''#'',
                    attributePrefix = ''@'', indent = False, indentText = []\<rparr>)
   \<and> contentPrefix \<lparr>w = [dquote] @ ''x'' @ [dquote, newline], err = None, contentPrefix = ''#'',
                    attributePrefix = ''@'', indent = False, indentText = []\<rparr> = ''#''"
proof -
  have h: "EncodeWithCustomPrefixes bufWrite (NewEncoder []) (Some (Node ''x'' [])) ''#'' ''@''
     = Some (None, \<lparr>w = [dquote] @ ''x'' @ [dquote, newline], err = None, contentPrefix = ''#'',
                    attributePrefix = ''@'', indent = False, indentText = []\<rparr>)"
    by code_simp
  show ?thesis using h EncodeWithCustomPrefixes_stores_prefixes [OF h] by simp
qed

subsection \<open>The configuration\<close>




section \<open>The claims about the sanitiser\<close>

text \<open>
  C4: for every string, \<open>sanitiseString\<close> returns what \<open>Sanitize\<close> describes: a double
  quote, the escapes of the units of the string one after the other, from left to right,
  and a double quote; the escape of a unit is \<open>escape_unit\<close>: the replacement escape for a
  malformed unit, the short or the four-digit lowercase hexadecimal escape for a byte of
  the escape set, the escapes of U+2028 and U+2029, and the unit itself otherwise.
\<close>

theorem sanitiseString_mapping:
  "sanitiseString s = Sanitize s"
  using sanitiseString_escaped_text [of s] by (simp add: escaped_text_def Sanitize_def)

text \<open>
  C5: for every string, malformed or not, the result of \<open>sanitiseString\<close> is a JSON
  string literal: the parser accepts it, and reads back the code points of the string,
  with U+FFFD in the place of each malformed unit.  \<open>sanitiseString\<close> is a total function
  (the loop terminates on every input).
\<close>

theorem sanitiseString_valid_json:
  "json_string_literal (sanitiseString s) = Some (map fst (units s))"
  using json_chars_escaped_text [of s]
  by (simp add: json_string_literal_def sanitiseString_escaped_text)

text \<open>
  The string of the single byte \<open>0xFF\<close> has no control character, quote, backslash,
  \<open><\<close>, \<open>>\<close>, \<open>&\<close>, U+2028 or U+2029, and is not returned unchanged between quotes: the
  byte is malformed UTF-8 and is replaced by the escape of U+FFFD.
\<close>

theorem sanitiseString_malformed_counterexample:
  "escape_free [CHR 0xFF]
   \<and> sanitiseString [CHR 0xFF] = [dquote, bslash] @ ''ufffd'' @ [dquote]
   \<and> sanitiseString [CHR 0xFF] \<noteq> [dquote] @ [CHR 0xFF] @ [dquote]"
proof -
  have d: "DecodeRuneInString [CHR 0xFF] = (0xFFFD, 1)"
    by (simp add: decode_defs)
  have u: "units [CHR 0xFF] = [(0xFFFD, [CHR 0xFF])]"
    by (simp add: units_decode [OF _ d])
  have f: "escape_free [CHR 0xFF]"
    by (simp add: escape_free_def u)
  have "escaped_text [CHR 0xFF] = [bslash] @ ''ufffd''"
    by (simp add: escaped_text_def u escape_unit_def malformed_def RuneError_def)
  then have s: "sanitiseString [CHR 0xFF] = [dquote, bslash] @ ''ufffd'' @ [dquote]"
    by (simp add: sanitiseString_escaped_text)
  from f s show ?thesis by simp
qed

text \<open>
  C6, amended: for every string of valid UTF-8 that contains no control character
  (below \<open>0x20\<close>), no quote or backslash, none of \<open><\<close>, \<open>>\<close>, \<open>&\<close>, and neither U+2028 nor
  U+2029, \<open>sanitiseString\<close> returns the string unchanged between two double quotes.
\<close>

theorem sanitiseString_plain:
  assumes "valid_utf8 s" and "escape_free s"
  shows "sanitiseString s = [dquote] @ s @ [dquote]"
  using escaped_text_plain [OF assms] by (simp add: sanitiseString_escaped_text)

theorem sanitiseString_plain_witness:
  "valid_utf8 [CHR ''a'', CHR 0xC3, CHR 0xA9, CHR 0x7F]
   \<and> escape_free [CHR ''a'', CHR 0xC3, CHR 0xA9, CHR 0x7F]
   \<and> sanitiseString [CHR ''a'', CHR 0xC3, CHR 0xA9, CHR 0x7F]
      = [dquote] @ [CHR ''a'', CHR 0xC3, CHR 0xA9, CHR 0x7F] @ [dquote]"
proof -
  have d: "DecodeRuneInString [CHR 0xC3, CHR 0xA9, CHR 0x7F] = (0xE9, 2)"
    by (simp add: decode_defs)
  have u: "units [CHR ''a'', CHR 0xC3, CHR 0xA9, CHR 0x7F]
      = [(0x61, ''a''), (0xE9, [CHR 0xC3, CHR 0xA9]), (0x7F, [CHR 0x7F])]"
    by (simp add: units_ascii units_decode [OF _ d] RuneSelf_def less_char_def)
  have v: "valid_utf8 [CHR ''a'', CHR 0xC3, CHR 0xA9, CHR 0x7F]"
    by (simp add: valid_utf8_def u malformed_def RuneError_def)
  have f: "escape_free [CHR ''a'', CHR 0xC3, CHR 0xA9, CHR 0x7F]"
    by (simp add: escape_free_def u)
  show ?thesis using v f sanitiseString_plain [OF v f] by simp
qed

end
